theory Spec2Isabelle
  imports Complex_Main "HOL-Library.AList" "HOL-Library.Multiset"
begin

section \<open>Python primitives used by \<open>macs_differs.py\<close>\<close>

text \<open>
  Python integers are unbounded, so \<open>n\<close>, \<open>d\<close>, \<open>macs\<close>, depths and counts are
  \<^typ>\<open>int\<close>. Exceptions are values of \<open>error\<close>; a function that can raise returns
  \<open>error + 'a\<close> with \<open>Inl\<close> for the exception.
\<close>

datatype error = ValueError | TypeError | KeyError | UnboundLocalError

text \<open>\<open>range(k)\<close>: the integers \<open>0, 1, ..., k - 1\<close>, empty when \<open>k \<le> 0\<close>.\<close>

definition range_py :: "int \<Rightarrow> int list" where
  "range_py k = map int [0..<nat k]"

text \<open>
  The test \<open>f > n / 2\<close>. Python's \<open>/\<close> is true division; the comparison of the
  integer \<open>f\<close> with the quotient is exact, and the quotient itself is exact for every
  \<open>n\<close> below \<open>2^53\<close>, far beyond any length the loops below can traverse.
\<close>

definition exceeds_half :: "int \<Rightarrow> int \<Rightarrow> bool" where
  "exceeds_half f n = (real_of_int f > real_of_int n / 2)"

text \<open>
  A \<open>defaultdict(int)\<close> as an association list in insertion order: reading a missing
  key gives \<open>0\<close>, and \<open>m[k] += w\<close> updates the entry in place or appends a new one.
\<close>

definition dd_get :: "('k \<times> int) list \<Rightarrow> 'k \<Rightarrow> int" where
  "dd_get m k = (case map_of m k of None \<Rightarrow> 0 | Some c \<Rightarrow> c)"

definition dd_add :: "('k \<times> int) list \<Rightarrow> 'k \<Rightarrow> int \<Rightarrow> ('k \<times> int) list" where
  "dd_add m k w = AList.update k (dd_get m k + w) m"

section \<open>The brute-force enumerator \<open>brute\<close>\<close>

text \<open>
  \<open>itertools.product(xs, repeat=k)\<close> in its own (lexicographic) order. A negative
  \<open>repeat\<close> raises \<open>ValueError\<close>; that case is handled in \<open>brute\<close>.
\<close>

fun product_repeat :: "'a list \<Rightarrow> nat \<Rightarrow> 'a list list" where
  "product_repeat xs 0 = [[]]"
| "product_repeat xs (Suc k) = concat (map (\<lambda>x. map ((#) x) (product_repeat xs k)) xs)"

text \<open>
  The predicate \<open>good(t)\<close>, with its three loops in the order of the source. It is only
  ever applied to tuples of length \<open>n\<close>, so every index \<open>t[i]\<close> is in range.
\<close>

definition good :: "int \<Rightarrow> int \<Rightarrow> int list \<Rightarrow> bool" where
  "good n macs t =
     (let freqs = fold (\<lambda>i fr. dd_add fr (t ! nat i) 1) (range_py n) []
      in if list_ex (\<lambda>f. exceeds_half f n) (map snd freqs) then False
         else if list_ex (\<lambda>i. abs (t ! nat i - t ! nat (i + 1)) > macs) (range_py (n - 1))
           then False
         else if list_ex (\<lambda>i. t ! nat i = t ! nat (i + 1) \<and> t ! nat (i + 1) = t ! nat (i + 2))
                   (range_py (n - 2))
           then False
         else True)"

text \<open>
  The adjacency check alone: the second loop of \<open>good\<close>, on a tuple of length \<open>n\<close>.
\<close>

definition macs_valid :: "int \<Rightarrow> int \<Rightarrow> int list \<Rightarrow> bool" where
  "macs_valid n macs t =
     (\<not> list_ex (\<lambda>i. abs (t ! nat i - t ! nat (i + 1)) > macs) (range_py (n - 1)))"

definition brute :: "int \<Rightarrow> int \<Rightarrow> int \<Rightarrow> error + int" where
  "brute n d macs =
     (if n < 0 then Inl ValueError
      else Inr (sum_list (map (\<lambda>t. 1)
                  (filter (good n macs) (product_repeat (range_py d) (nat n))))))"

section \<open>The transfer-matrix counter \<open>count_keys\<close>\<close>

text \<open>
  Matrices are lists of rows of Python integers (the source forces \<open>dtype=object\<close>, so
  no entry is ever truncated). \<open>np.fromfunction\<close> rejects a negative dimension with
  \<open>ValueError\<close>; \<open>np.linalg.matrix_power\<close> with a negative exponent tries to invert
  the matrix, which numpy refuses for object arrays with a \<open>TypeError\<close>; exponent \<open>0\<close>
  gives the identity, and a positive exponent the repeated product.
\<close>

type_synonym matrix = "int list list"

definition adjacency :: "int \<Rightarrow> int \<Rightarrow> matrix" where
  "adjacency d macs =
     map (\<lambda>i. map (\<lambda>j. if abs (i - j) \<le> macs then 1 else 0) (range_py d)) (range_py d)"

definition eye :: "nat \<Rightarrow> matrix" where
  "eye d = map (\<lambda>i. map (\<lambda>j. if i = j then 1 else 0) [0..<d]) [0..<d]"

definition mat_mul :: "nat \<Rightarrow> matrix \<Rightarrow> matrix \<Rightarrow> matrix" where
  "mat_mul d A B =
     map (\<lambda>i. map (\<lambda>j. sum_list (map (\<lambda>l. A ! i ! l * B ! l ! j) [0..<d])) [0..<d]) [0..<d]"

fun matrix_power :: "nat \<Rightarrow> matrix \<Rightarrow> nat \<Rightarrow> matrix" where
  "matrix_power d A 0 = eye d"
| "matrix_power d A (Suc k) = mat_mul d (matrix_power d A k) A"

definition mat_sum :: "matrix \<Rightarrow> int" where
  "mat_sum A = sum_list (map sum_list A)"

definition count_keys :: "int \<Rightarrow> int \<Rightarrow> int \<Rightarrow> error + int" where
  "count_keys bitting_positions bitting_depths macs =
     (if bitting_positions = 0 then Inr 1
      else if bitting_depths < 0 then Inl ValueError
      else if bitting_positions - 1 < 0 then Inl TypeError
      else Inr (mat_sum (matrix_power (nat bitting_depths) (adjacency bitting_depths macs)
                           (nat (bitting_positions - 1)))))"

section \<open>The state-space counter \<open>count_keys_macs_and_en1303\<close>\<close>

text \<open>
  A state is the frequency table and the last two depths (\<open>None\<close> while they do not
  exist yet).
\<close>

type_synonym state = "int list \<times> (int option \<times> int option)"

definition initial_state :: "int \<Rightarrow> state" where
  "initial_state d = (replicate (nat d) 0, (None, None))"

text \<open>
  One round of the loop over \<open>b\<close> in \<open>neighbors\<close>: \<open>None\<close> where the source
  \<open>continue\<close>s, the yielded state otherwise. \<open>d1 == d2 == b\<close> is Python's chained
  comparison \<open>d1 == d2 and d2 == b\<close>. The table \<open>freqs\<close> of every state the search
  reaches has length \<open>d\<close> (lemmas \<open>run_inv\<close>, \<open>table_inv\<close>) and \<open>b\<close> comes from
  \<open>range(d)\<close>, so \<open>freqs[b]\<close> is always in range.
\<close>

definition transition :: "int \<Rightarrow> int \<Rightarrow> state \<Rightarrow> int \<Rightarrow> state option" where
  "transition n macs st b =
     (case st of (freqs, (d1, d2)) \<Rightarrow>
        if d1 = d2 \<and> d2 = Some b then None
        else if (case d2 of None \<Rightarrow> False | Some x \<Rightarrow> abs (x - b) > macs) then None
        else if exceeds_half (freqs ! nat b + 1) n then None
        else Some (take (nat b) freqs @ [freqs ! nat b + 1] @ drop (nat b + 1) freqs,
                   (d2, Some b)))"

definition neighbors :: "int \<Rightarrow> int \<Rightarrow> int \<Rightarrow> state \<Rightarrow> state list" where
  "neighbors n d macs st =
     (if sum_list (fst st) = n then []
      else List.map_filter (transition n macs st) (range_py d))"

text \<open>
  The tables carried from one level to the next (\<open>q\<close>, \<open>id_to_state\<close>, \<open>paths\<close>) and
  the tables built during a level. Dictionaries are association lists in insertion order.
\<close>

record level =
  q :: "nat list"
  id_to_state :: "(nat \<times> state) list"
  paths :: "(nat \<times> int) list"

record next_level =
  new_q :: "nat list"
  new_state_to_id :: "(state \<times> nat) list"
  new_id_to_state :: "(nat \<times> state) list"
  new_paths :: "(nat \<times> int) list"

definition initial_level :: "int \<Rightarrow> level" where
  "initial_level d = \<lparr>q = [0], id_to_state = [(0, initial_state d)], paths = [(0, 1)]\<rparr>"

definition empty_next :: next_level where
  "empty_next = \<lparr>new_q = [], new_state_to_id = [], new_id_to_state = [], new_paths = []\<rparr>"

text \<open>
  The body of \<open>for v in neighbors(u)\<close>; \<open>w\<close> is \<open>paths[u_id]\<close>.
\<close>

definition visit :: "int \<Rightarrow> state \<Rightarrow> next_level \<Rightarrow> next_level" where
  "visit w v B =
     (case map_of (new_state_to_id B) v of
        None \<Rightarrow>
          let v_id = length (new_state_to_id B) in
          B\<lparr>new_state_to_id := AList.update v v_id (new_state_to_id B),
            new_id_to_state := AList.update v_id v (new_id_to_state B),
            new_q := new_q B @ [v_id],
            new_paths := dd_add (new_paths B) v_id w\<rparr>
      | Some v_id \<Rightarrow> B\<lparr>new_paths := dd_add (new_paths B) v_id w\<rparr>)"

text \<open>
  The \<open>while q\<close> loop: \<open>q.pop()\<close> takes the last identifier, so the list of pending
  identifiers is given here already reversed. \<open>id_to_state[u_id]\<close> is a plain dictionary
  lookup and raises \<open>KeyError\<close> on a missing key.
\<close>

fun search :: "int \<Rightarrow> int \<Rightarrow> int \<Rightarrow> level \<Rightarrow> nat list \<Rightarrow> next_level \<Rightarrow> error + next_level" where
  "search n d macs L [] B = Inr B"
| "search n d macs L (u_id # us) B =
     (case map_of (id_to_state L) u_id of
        None \<Rightarrow> Inl KeyError
      | Some u \<Rightarrow>
          search n d macs L us
            (fold (visit (dd_get (paths L) u_id)) (neighbors n d macs u) B))"

definition expand :: "int \<Rightarrow> int \<Rightarrow> int \<Rightarrow> level \<Rightarrow> error + level" where
  "expand n d macs L =
     (case search n d macs L (rev (q L)) empty_next of
        Inl e \<Rightarrow> Inl e
      | Inr B \<Rightarrow> Inr \<lparr>q = new_q B, id_to_state = new_id_to_state B, paths = new_paths B\<rparr>)"

text \<open>
  The outer loop after \<open>i\<close> rounds. The second component is the local variable
  \<open>pbar2\<close> (its \<open>total\<close>), bound only once a round has started.
\<close>

fun run_levels :: "int \<Rightarrow> int \<Rightarrow> int \<Rightarrow> nat \<Rightarrow> error + (level \<times> nat option)" where
  "run_levels n d macs 0 = Inr (initial_level d, None)"
| "run_levels n d macs (Suc i) =
     (case run_levels n d macs i of
        Inl e \<Rightarrow> Inl e
      | Inr (L, pbar2) \<Rightarrow>
          (case expand n d macs L of
             Inl e \<Rightarrow> Inl e
           | Inr L' \<Rightarrow> Inr (L', Some (length (q L)))))"

text \<open>
  \<open>for i in range(n)\<close> runs \<open>nat n\<close> rounds; then \<open>pbar2.close()\<close> reads \<open>pbar2\<close>,
  which raises \<open>UnboundLocalError\<close> when no round ran; then the sum of \<open>paths.values()\<close>.
\<close>

definition count_keys_macs_and_en1303 :: "int \<Rightarrow> int \<Rightarrow> int \<Rightarrow> error + int" where
  "count_keys_macs_and_en1303 n d macs =
     (case run_levels n d macs (nat n) of
        Inl e \<Rightarrow> Inl e
      | Inr (L, pbar2) \<Rightarrow>
          (case pbar2 of
             None \<Rightarrow> Inl UnboundLocalError
           | Some p \<Rightarrow> Inr (sum_list (map snd (paths L)))))"

section \<open>Definitions used in the proofs\<close>

text \<open>
  None of the following is part of the program: they are the intermediate views of the
  search (a list of states with counts, a multiset of states, the depth sequences behind
  the states) through which the counters are related.
\<close>

subsection \<open>Refinement: the identifier tables represent a counted list of states\<close>

text \<open>
  The tables of a level hold a list of distinct states with their counts: the identifiers
  are the positions in that list. \<open>rep_next\<close> and \<open>rep_level\<close> build the tables from
  such a list.
\<close>

definition rep_next :: "(state \<times> int) list \<Rightarrow> next_level" where
  "rep_next al =
     \<lparr>new_q = [0..<length al],
      new_state_to_id = zip (map fst al) [0..<length al],
      new_id_to_state = zip [0..<length al] (map fst al),
      new_paths = zip [0..<length al] (map snd al)\<rparr>"

definition rep_level :: "(state \<times> int) list \<Rightarrow> level" where
  "rep_level al =
     \<lparr>q = [0..<length al],
      id_to_state = zip [0..<length al] (map fst al),
      paths = zip [0..<length al] (map snd al)\<rparr>"

text \<open>One round of the search on the list of states with counts.\<close>

definition grow :: "int \<Rightarrow> int \<Rightarrow> int \<Rightarrow> (state \<times> int) list \<Rightarrow> (state \<times> int) list" where
  "grow n d macs al =
     fold (\<lambda>uc acc. fold (\<lambda>v acc. dd_add acc v (snd uc)) (neighbors n d macs (fst uc)) acc)
       (rev al) []"

text \<open>The list of states with counts after \<open>i\<close> rounds.\<close>

primrec table :: "int \<Rightarrow> int \<Rightarrow> int \<Rightarrow> nat \<Rightarrow> (state \<times> int) list" where
  "table n d macs 0 = [(initial_state d, 1)]"
| "table n d macs (Suc i) = grow n d macs (table n d macs i)"

subsection \<open>The counted list as a multiset of states\<close>

text \<open>
  The multiset that holds each state as often as its count says, and the multiset of all
  successors of the states of a multiset.
\<close>

definition mstates :: "(state \<times> int) list \<Rightarrow> state multiset" where
  "mstates al = sum_list (map (\<lambda>uc. replicate_mset (nat (snd uc)) (fst uc)) al)"

definition succ_mset :: "int \<Rightarrow> int \<Rightarrow> int \<Rightarrow> state multiset \<Rightarrow> state multiset" where
  "succ_mset n d macs X = sum_mset (image_mset (\<lambda>u. mset (neighbors n d macs u)) X)"

text \<open>All counts are non-negative.\<close>

definition nonneg :: "('k \<times> int) list \<Rightarrow> bool" where
  "nonneg al = list_all (\<lambda>uc. 0 \<le> snd uc) al"

subsection \<open>Reachable states as images of depth sequences\<close>

text \<open>
  All sequences of length \<open>k\<close> over \<open>xs\<close>, built as the search builds keys: by adding
  one element at the end.
\<close>

fun seqs :: "'a list \<Rightarrow> nat \<Rightarrow> 'a list list" where
  "seqs xs 0 = [[]]"
| "seqs xs (Suc k) = concat (map (\<lambda>t. map (\<lambda>b. t @ [b]) xs) (seqs xs k))"

text \<open>
  The state a sequence of depths leads to from the initial state, \<open>None\<close> as soon as a
  transition is rejected; and the states reached by the sequences of length \<open>i\<close>.
\<close>

definition run :: "int \<Rightarrow> int \<Rightarrow> int \<Rightarrow> int list \<Rightarrow> state option" where
  "run n d macs t =
     fold (\<lambda>b so. case so of None \<Rightarrow> None | Some s \<Rightarrow> transition n macs s b) t
       (Some (initial_state d))"

definition reach :: "int \<Rightarrow> int \<Rightarrow> int \<Rightarrow> nat \<Rightarrow> state list" where
  "reach n d macs i = List.map_filter (run n d macs) (seqs (range_py d) i)"

subsection \<open>Sequence predicates and their behaviour under appending a depth\<close>

text \<open>
  The three conditions on a whole sequence: no depth occurs more than \<open>n / 2\<close> times,
  adjacent depths differ by at most \<open>macs\<close>, no three consecutive depths are equal.
\<close>

definition freq_ok :: "int \<Rightarrow> int list \<Rightarrow> bool" where
  "freq_ok n t = (\<forall>x\<in>set t. \<not> exceeds_half (int (count_list t x)) n)"

definition adj_ok :: "int \<Rightarrow> int list \<Rightarrow> bool" where
  "adj_ok macs t = (\<forall>i. Suc i < length t \<longrightarrow> \<not> macs < \<bar>t ! i - t ! Suc i\<bar>)"

definition no_triple :: "int list \<Rightarrow> bool" where
  "no_triple t =
     (\<forall>i. Suc (Suc i) < length t \<longrightarrow> \<not> (t ! i = t ! Suc i \<and> t ! Suc i = t ! Suc (Suc i)))"

text \<open>The frequency table and the last two depths of a sequence.\<close>

definition freq_tab :: "int \<Rightarrow> int list \<Rightarrow> int list" where
  "freq_tab d t = map (\<lambda>k. int (count_list t k)) (range_py d)"

definition last2 :: "int list \<Rightarrow> int option \<times> int option" where
  "last2 t = (if length t < 2 then None else Some (t ! (length t - 2)),
              if t = [] then None else Some (t ! (length t - 1)))"

subsection \<open>Comparisons of the counters, single depth, and the level invariant\<close>

text \<open>The invariant of the states after \<open>i\<close> rounds.\<close>

definition level_inv :: "int \<Rightarrow> int \<Rightarrow> nat \<Rightarrow> state \<Rightarrow> bool" where
  "level_inv n d i s =
     (length (fst s) = nat d \<and> sum_list (fst s) = int i \<and> int i \<le> n \<and>
      list_all (\<lambda>f. \<not> exceeds_half f n) (fst s))"

section \<open>Lemmas\<close>

lemma exceeds_half_iff [code]: "exceeds_half f n = (n < 2 * f)"
  by (auto simp: exceeds_half_def field_simps)

lemma constrained_unbound:
  "n \<le> 0 \<Longrightarrow> count_keys_macs_and_en1303 n d macs = Inl UnboundLocalError"
  by (simp add: count_keys_macs_and_en1303_def)

subsection \<open>Refinement: the identifier tables represent a counted list of states\<close>

lemma update_absent: "k \<notin> fst ` set al \<Longrightarrow> AList.update k v al = al @ [(k, v)]"
  by (induction al) auto

lemma update_present:
  "distinct (map fst al) \<Longrightarrow> j < length al \<Longrightarrow> fst (al ! j) = k \<Longrightarrow>
   AList.update k v al = al[j := (k, v)]"
proof (induction al arbitrary: j)
  case Nil
  then show ?case by simp
next
  case (Cons p ps)
  show ?case
  proof (cases j)
    case 0
    with Cons.prems show ?thesis by (cases p) auto
  next
    case (Suc m)
    with Cons.prems have "m < length ps" "fst (ps ! m) = k" by auto
    then have "k \<in> fst ` set ps" by (metis imageI nth_mem)
    with Cons.prems(1) have "fst p \<noteq> k" by auto
    with Suc Cons show ?thesis by (cases p) auto
  qed
qed

lemma dd_add_absent: "k \<notin> fst ` set m \<Longrightarrow> dd_add m k w = m @ [(k, w)]"
proof -
  assume a: "k \<notin> fst ` set m"
  then have "map_of m k = None" by (simp add: map_of_eq_None_iff)
  then show ?thesis using a by (simp add: dd_add_def dd_get_def update_absent)
qed

lemma dd_add_present:
  assumes "distinct (map fst m)" "j < length m" "fst (m ! j) = k"
  shows "dd_add m k w = m[j := (k, snd (m ! j) + w)]"
proof -
  have "(k, snd (m ! j)) \<in> set m"
    using assms by (metis nth_mem prod.collapse)
  then have "map_of m k = Some (snd (m ! j))" using assms(1) by simp
  then show ?thesis using assms by (simp add: dd_add_def dd_get_def update_present)
qed

lemma map_of_zip_upt_Some:
  "distinct xs \<Longrightarrow> map_of (zip xs [0..<length xs]) v = Some j \<Longrightarrow> j < length xs \<and> xs ! j = v"
proof -
  assume "distinct xs" and m: "map_of (zip xs [0..<length xs]) v = Some j"
  from map_of_SomeD[OF m] have "(v, j) \<in> set (zip xs [0..<length xs])" .
  then show ?thesis by (auto simp: in_set_zip)
qed

lemma zip_upt_snoc:
  "length xs = k \<Longrightarrow> zip [0..<Suc k] (xs @ [x]) = zip [0..<k] xs @ [(k, x)]"
  "length xs = k \<Longrightarrow> zip (xs @ [x]) [0..<Suc k] = zip xs [0..<k] @ [(x, k)]"
  by simp_all

lemma zip_upt_update:
  "j < length cs \<Longrightarrow> (zip [0..<length cs] cs)[j := (j, c)] = zip [0..<length cs] (cs[j := c])"
  by (rule nth_equalityI) (auto simp: nth_list_update)

lemma visit_None:
  "map_of (new_state_to_id B) v = None \<Longrightarrow>
   visit w v B =
     \<lparr>new_q = new_q B @ [length (new_state_to_id B)],
      new_state_to_id = AList.update v (length (new_state_to_id B)) (new_state_to_id B),
      new_id_to_state = AList.update (length (new_state_to_id B)) v (new_id_to_state B),
      new_paths = dd_add (new_paths B) (length (new_state_to_id B)) w\<rparr>"
  by (simp add: visit_def Let_def)

lemma visit_Some:
  "map_of (new_state_to_id B) v = Some i \<Longrightarrow>
   visit w v B =
     \<lparr>new_q = new_q B, new_state_to_id = new_state_to_id B,
      new_id_to_state = new_id_to_state B, new_paths = dd_add (new_paths B) i w\<rparr>"
  by (simp add: visit_def)

lemma rep_next_sel:
  "new_q (rep_next al) = [0..<length al]"
  "new_state_to_id (rep_next al) = zip (map fst al) [0..<length al]"
  "new_id_to_state (rep_next al) = zip [0..<length al] (map fst al)"
  "new_paths (rep_next al) = zip [0..<length al] (map snd al)"
  by (simp_all add: rep_next_def)

lemma visit_rep:
  assumes "distinct (map fst al)"
  shows "visit w v (rep_next al) = rep_next (dd_add al v w)"
proof (cases "v \<in> fst ` set al")
  case False
  let ?k = "length al"
  have none: "map_of (new_state_to_id (rep_next al)) v = None"
    using False by (simp add: rep_next_sel map_of_zip_is_None)
  have len: "length (new_state_to_id (rep_next al)) = ?k"
    by (simp add: rep_next_sel)
  have k1: "?k \<notin> fst ` set (zip [0..<?k] (map fst al))"
    and k2: "?k \<notin> fst ` set (zip [0..<?k] (map snd al))"
    and k3: "v \<notin> fst ` set (zip (map fst al) [0..<?k])"
    using False by (auto dest: set_zip_leftD)
  have f1: "AList.update v ?k (zip (map fst al) [0..<?k]) = zip (map fst al) [0..<?k] @ [(v, ?k)]"
    by (rule update_absent[OF k3])
  have f2: "AList.update ?k v (zip [0..<?k] (map fst al)) = zip [0..<?k] (map fst al) @ [(?k, v)]"
    by (rule update_absent[OF k1])
  have f3: "dd_add (zip [0..<?k] (map snd al)) ?k w = zip [0..<?k] (map snd al) @ [(?k, w)]"
    by (rule dd_add_absent[OF k2])
  have a: "dd_add al v w = al @ [(v, w)]"
    by (rule dd_add_absent[OF False])
  have r: "rep_next (al @ [(v, w)]) =
      \<lparr>new_q = [0..<?k] @ [?k],
       new_state_to_id = zip (map fst al) [0..<?k] @ [(v, ?k)],
       new_id_to_state = zip [0..<?k] (map fst al) @ [(?k, v)],
       new_paths = zip [0..<?k] (map snd al) @ [(?k, w)]\<rparr>"
    by (simp add: rep_next_def)
  show ?thesis
    unfolding visit_None[OF none] len a r
    unfolding rep_next_sel f1 f2 f3 by (rule refl)
next
  case True
  then obtain p where "p \<in> set al" "fst p = v" by auto
  then obtain j where j: "j < length al" "fst (al ! j) = v"
    by (auto simp: in_set_conv_nth)
  have "map_of (zip (map fst al) [0..<length al]) v \<noteq> None"
    using True by (simp add: map_of_zip_is_None)
  then obtain i where i: "map_of (zip (map fst al) [0..<length al]) v = Some i"
    by (metis not_None_eq)
  have i0: "map_of (zip (map fst al) [0..<length (map fst al)]) v = Some i"
    using i by simp
  have i': "i < length al" "fst (al ! i) = v"
    using map_of_zip_upt_Some[OF assms i0] by auto
  have ij: "i = j"
    using nth_eq_iff_index_eq[OF assms, of i j] i' j by simp
  have some: "map_of (new_state_to_id (rep_next al)) v = Some j"
    using i ij by (simp add: rep_next_sel)
  have dk: "distinct (map fst (zip [0..<length al] (map snd al)))" by simp
  have jz: "j < length (zip [0..<length al] (map snd al))"
    and fz: "fst (zip [0..<length al] (map snd al) ! j) = j"
    and sz: "snd (zip [0..<length al] (map snd al) ! j) = snd (al ! j)"
    using j by simp_all
  have p: "dd_add (zip [0..<length al] (map snd al)) j w
           = zip [0..<length al] ((map snd al)[j := snd (al ! j) + w])"
    unfolding dd_add_present[OF dk jz fz] sz
    using zip_upt_update[of j "map snd al" "snd (al ! j) + w"] j by simp
  have a: "dd_add al v w = al[j := (v, snd (al ! j) + w)]"
    using dd_add_present[OF assms j] .
  have m1: "map fst (al[j := (v, snd (al ! j) + w)]) = map fst al"
    using j by (simp add: map_update list_update_same_conv)
  have m2: "map snd (al[j := (v, snd (al ! j) + w)]) = (map snd al)[j := snd (al ! j) + w]"
    by (simp add: map_update)
  have r: "rep_next (al[j := (v, snd (al ! j) + w)]) =
      \<lparr>new_q = [0..<length al],
       new_state_to_id = zip (map fst al) [0..<length al],
       new_id_to_state = zip [0..<length al] (map fst al),
       new_paths = zip [0..<length al] ((map snd al)[j := snd (al ! j) + w])\<rparr>"
    unfolding rep_next_def m1 m2 by simp
  show ?thesis
    unfolding visit_Some[OF some] a r
    unfolding rep_next_sel p by (rule refl)
qed

lemma distinct_dd_add: "distinct (map fst m) \<Longrightarrow> distinct (map fst (dd_add m k w))"
  by (simp add: dd_add_def distinct_update)

lemma fold_visit_rep:
  "distinct (map fst al) \<Longrightarrow>
   fold (visit w) vs (rep_next al) = rep_next (fold (\<lambda>v acc. dd_add acc v w) vs al)"
  by (induction vs arbitrary: al) (simp_all add: visit_rep distinct_dd_add)

lemma distinct_fold_dd_add:
  "distinct (map fst al) \<Longrightarrow> distinct (map fst (fold (\<lambda>v acc. dd_add acc v w) vs al))"
  by (induction vs arbitrary: al) (simp_all add: distinct_dd_add)

lemma map_of_zip_upt:
  "i < length xs \<Longrightarrow> map_of (zip [0..<length xs] xs) i = Some (xs ! i)"
  using map_of_zip_nth[of "[0..<length xs]" xs i] by simp

lemma search_rep:
  assumes "distinct (map fst acc)" "\<forall>i\<in>set us. i < length al"
  shows "search n d macs (rep_level al) us (rep_next acc) =
         Inr (rep_next (fold (\<lambda>uc acc. fold (\<lambda>v acc. dd_add acc v (snd uc))
                                      (neighbors n d macs (fst uc)) acc)
                          (map ((!) al) us) acc))"
  using assms
proof (induction us arbitrary: acc)
  case Nil
  then show ?case by simp
next
  case (Cons u us)
  then have u: "u < length al" by simp
  have s: "map_of (id_to_state (rep_level al)) u = Some (fst (al ! u))"
    using u map_of_zip_upt[of u "map fst al"] by (simp add: rep_level_def)
  have p: "dd_get (paths (rep_level al)) u = snd (al ! u)"
    using u map_of_zip_upt[of u "map snd al"] by (simp add: rep_level_def dd_get_def)
  show ?case
    using Cons.prems
    by (simp add: s p fold_visit_rep Cons.IH distinct_fold_dd_add)
qed

lemma distinct_grow_fold:
  "distinct (map fst acc) \<Longrightarrow>
   distinct (map fst (fold (\<lambda>uc acc. fold (\<lambda>v acc. dd_add acc v (snd uc))
                                      (neighbors n d macs (fst uc)) acc) ucs acc))"
  by (induction ucs arbitrary: acc) (simp_all add: distinct_fold_dd_add)

lemma distinct_grow: "distinct (map fst (grow n d macs al))"
  by (simp add: grow_def distinct_grow_fold)

lemma expand_rep: "expand n d macs (rep_level al) = Inr (rep_level (grow n d macs al))"
proof -
  have e: "empty_next = rep_next []" by (simp add: empty_next_def rep_next_def)
  have m: "map ((!) al) (rev [0..<length al]) = rev al"
    by (simp add: rev_map[symmetric] map_nth)
  have "search n d macs (rep_level al) (rev (q (rep_level al))) empty_next
        = Inr (rep_next (grow n d macs al))"
    unfolding e using search_rep[of "[]" "rev [0..<length al]" al n d macs]
    by (simp add: rep_level_def m grow_def)
  then show ?thesis by (simp add: expand_def rep_next_def rep_level_def)
qed

lemma distinct_table: "distinct (map fst (table n d macs i))"
  by (cases i) (simp_all add: distinct_grow)

lemma run_levels_rep:
  "run_levels n d macs i =
     Inr (rep_level (table n d macs i),
          if i = 0 then None else Some (length (table n d macs (i - 1))))"
proof (induction i)
  case 0
  then show ?case by (simp add: initial_level_def rep_level_def)
next
  case (Suc i)
  have "length (q (rep_level (table n d macs i))) = length (table n d macs i)"
    by (simp add: rep_level_def)
  then show ?case by (simp add: Suc expand_rep)
qed

lemma constrained_table:
  "1 \<le> n \<Longrightarrow> count_keys_macs_and_en1303 n d macs
       = Inr (sum_list (map snd (table n d macs (nat n))))"
  by (simp add: count_keys_macs_and_en1303_def run_levels_rep rep_level_def)

subsection \<open>The counted list as a multiset of states\<close>

lemma dd_add_Nil: "dd_add [] k w = [(k, w)]"
  by (simp add: dd_add_def dd_get_def)

lemma dd_add_Cons:
  "dd_add (p # ps) k w = (if fst p = k then (k, snd p + w) # ps else p # dd_add ps k w)"
  by (cases p) (simp add: dd_add_def dd_get_def)

lemma mstates_Nil: "mstates [] = {#}"
  by (simp add: mstates_def)

lemma mstates_Cons: "mstates (p # ps) = replicate_mset (nat (snd p)) (fst p) + mstates ps"
  by (simp add: mstates_def)

lemma replicate_mset_add: "replicate_mset (a + b) x = replicate_mset a x + replicate_mset b x"
  by (induction a) simp_all

lemma mstates_dd_add:
  "0 \<le> w \<Longrightarrow> nonneg al \<Longrightarrow> mstates (dd_add al v w) = mstates al + replicate_mset (nat w) v"
proof (induction al)
  case Nil
  then show ?case by (simp add: dd_add_Nil mstates_Cons mstates_Nil)
next
  case (Cons p ps)
  then have "0 \<le> snd p" "nonneg ps" by (simp_all add: nonneg_def)
  with Cons show ?case
    by (simp add: dd_add_Cons mstates_Cons nat_add_distrib replicate_mset_add)
qed

lemma nonneg_dd_add: "0 \<le> w \<Longrightarrow> nonneg al \<Longrightarrow> nonneg (dd_add al v w)"
  by (induction al) (auto simp: dd_add_Nil dd_add_Cons nonneg_def)

lemma fold_dd_add_mstates:
  "0 \<le> c \<Longrightarrow> nonneg acc \<Longrightarrow>
   nonneg (fold (\<lambda>v acc. dd_add acc v c) vs acc) \<and>
   mstates (fold (\<lambda>v acc. dd_add acc v c) vs acc) = mstates acc + repeat_mset (nat c) (mset vs)"
proof (induction vs arbitrary: acc)
  case Nil
  then show ?case by simp
next
  case (Cons v vs)
  from Cons.prems have n1: "nonneg (dd_add acc v c)" by (simp add: nonneg_dd_add)
  from Cons.IH[OF Cons.prems(1) n1] Cons.prems show ?case
    by (simp add: mstates_dd_add)
qed

lemma sum_mset_replicate: "sum_mset (replicate_mset k (M :: 'a multiset)) = repeat_mset k M"
  by (induction k) simp_all

lemma succ_mset_add: "succ_mset n d macs (X + Y) = succ_mset n d macs X + succ_mset n d macs Y"
  by (simp add: succ_mset_def)

lemma succ_mset_replicate:
  "succ_mset n d macs (replicate_mset k u) = repeat_mset k (mset (neighbors n d macs u))"
  by (simp add: succ_mset_def sum_mset_replicate)

lemma succ_mset_mset:
  "succ_mset n d macs (mset us) = mset (concat (map (neighbors n d macs) us))"
  by (induction us) (simp_all add: succ_mset_def)

lemma grow_fold_mstates:
  "nonneg ucs \<Longrightarrow> nonneg acc \<Longrightarrow>
   nonneg (fold (\<lambda>uc acc. fold (\<lambda>v acc. dd_add acc v (snd uc)) (neighbors n d macs (fst uc)) acc) ucs acc) \<and>
   mstates (fold (\<lambda>uc acc. fold (\<lambda>v acc. dd_add acc v (snd uc)) (neighbors n d macs (fst uc)) acc) ucs acc)
     = mstates acc + succ_mset n d macs (mstates ucs)"
proof (induction ucs arbitrary: acc)
  case Nil
  then show ?case by (simp add: mstates_Nil succ_mset_def)
next
  case (Cons uc ucs)
  then have c: "0 \<le> snd uc" and r: "nonneg ucs" by (simp_all add: nonneg_def)
  note f = fold_dd_add_mstates[OF c Cons.prems(2), of "neighbors n d macs (fst uc)"]
  from Cons.IH[OF r conjunct1[OF f]] f show ?case
    by (simp add: mstates_Cons succ_mset_add succ_mset_replicate)
qed

lemma mstates_rev: "mstates (rev al) = mstates al"
  by (induction al) (simp_all add: mstates_def)

lemma nonneg_rev: "nonneg (rev al) = nonneg al"
  by (simp add: nonneg_def)

lemma grow_mstates:
  "nonneg al \<Longrightarrow> nonneg (grow n d macs al) \<and>
     mstates (grow n d macs al) = succ_mset n d macs (mstates al)"
  using grow_fold_mstates[of "rev al" "[]" n d macs]
  by (simp add: grow_def nonneg_rev mstates_rev mstates_Nil nonneg_def)

lemma size_mstates: "nonneg al \<Longrightarrow> int (size (mstates al)) = sum_list (map snd al)"
  by (induction al) (simp_all add: mstates_Nil mstates_Cons nonneg_def)

subsection \<open>Reachable states as images of depth sequences\<close>

lemma run_Nil: "run n d macs [] = Some (initial_state d)"
  by (simp add: run_def)

lemma run_snoc:
  "run n d macs (t @ [b]) =
     (case run n d macs t of None \<Rightarrow> None | Some s \<Rightarrow> transition n macs s b)"
  by (simp add: run_def)

lemma set_seqs: "t \<in> set (seqs xs k) \<Longrightarrow> length t = k \<and> set t \<subseteq> set xs"
proof (induction k arbitrary: t)
  case 0
  then show ?case by simp
next
  case (Suc k)
  then obtain t0 b where "t0 \<in> set (seqs xs k)" "b \<in> set xs" "t = t0 @ [b]" by auto
  with Suc.IH[of t0] show ?case by auto
qed

lemma in_range_py: "b \<in> set (range_py d) \<longleftrightarrow> 0 \<le> b \<and> b < d"
proof
  assume "b \<in> set (range_py d)"
  then show "0 \<le> b \<and> b < d" by (auto simp: range_py_def)
next
  assume a: "0 \<le> b \<and> b < d"
  then have "nat b < nat d" "int (nat b) = b" by auto
  then show "b \<in> set (range_py d)" unfolding range_py_def
    by (metis atLeastLessThan_iff image_eqI le0 set_map set_upt)
qed

lemma sum_list_bump:
  "k < length f \<Longrightarrow> sum_list (take k f @ [f ! k + 1] @ drop (Suc k) f) = sum_list f + (1::int)"
proof -
  assume k: "k < length f"
  have "sum_list (take k f) + sum_list (drop k f) = sum_list f"
    by (metis append_take_drop_id sum_list_append)
  moreover have "drop k f = f ! k # drop (Suc k) f"
    using k by (simp add: Cons_nth_drop_Suc)
  ultimately show ?thesis by simp
qed

lemma transition_inv:
  assumes "transition n macs s b = Some s'" "length (fst s) = nat d" "b \<in> set (range_py d)"
  shows "length (fst s') = nat d \<and> sum_list (fst s') = sum_list (fst s) + 1"
proof -
  obtain f d1 d2 where s: "s = (f, (d1, d2))" by (cases s) auto
  from assms(3) have b: "nat b < length f" using assms(2) s by (auto simp: in_range_py)
  from assms(1) have s': "s' = (take (nat b) f @ [f ! nat b + 1] @ drop (nat b + 1) f, (d2, Some b))"
    by (auto simp: transition_def s split: if_splits)
  have "length (take (nat b) f @ [f ! nat b + 1] @ drop (nat b + 1) f) = length f"
    using b by simp
  then show ?thesis using assms(2) sum_list_bump[OF b] by (simp add: s s')
qed

lemma run_inv:
  "set t \<subseteq> set (range_py d) \<Longrightarrow> run n d macs t = Some s \<Longrightarrow>
   length (fst s) = nat d \<and> sum_list (fst s) = int (length t)"
proof (induction t arbitrary: s rule: rev_induct)
  case Nil
  then show ?case by (auto simp: run_Nil initial_state_def sum_list_replicate)
next
  case (snoc b t)
  from snoc.prems(2) obtain s0 where s0: "run n d macs t = Some s0"
    and tr: "transition n macs s0 b = Some s"
    by (auto simp: run_snoc split: option.splits)
  from snoc.prems(1) have sub: "set t \<subseteq> set (range_py d)" and b: "b \<in> set (range_py d)" by auto
  from snoc.IH[OF sub s0] transition_inv[OF tr _ b] show ?case by simp
qed

lemma map_filter_append: "List.map_filter f (xs @ ys) = List.map_filter f xs @ List.map_filter f ys"
  by (simp add: List.map_filter_def)

lemma map_filter_map: "List.map_filter f (map g xs) = List.map_filter (\<lambda>x. f (g x)) xs"
  by (simp add: List.map_filter_def filter_map comp_def)

lemma reach_step:
  assumes "\<forall>t\<in>set T. \<forall>s. run n d macs t = Some s \<longrightarrow> sum_list (fst s) \<noteq> n"
  shows "List.map_filter (run n d macs) (concat (map (\<lambda>t. map (\<lambda>b. t @ [b]) (range_py d)) T))
         = concat (map (neighbors n d macs) (List.map_filter (run n d macs) T))"
  using assms
proof (induction T)
  case Nil
  then show ?case by simp
next
  case (Cons t T)
  show ?case
  proof (cases "run n d macs t")
    case None
    then have "List.map_filter (run n d macs) (map (\<lambda>b. t @ [b]) (range_py d)) = []"
      by (simp add: map_filter_map run_snoc List.map_filter_def)
    with None Cons show ?thesis by (simp add: map_filter_append)
  next
    case (Some s)
    have "t \<in> set (t # T)" by simp
    with Cons.prems have "\<forall>s. run n d macs t = Some s \<longrightarrow> sum_list (fst s) \<noteq> n"
      by blast
    with Some have ne: "sum_list (fst s) \<noteq> n" by blast
    have "List.map_filter (run n d macs) (map (\<lambda>b. t @ [b]) (range_py d)) = neighbors n d macs s"
      using ne Some by (simp add: map_filter_map run_snoc neighbors_def)
    with Some Cons show ?thesis by (simp add: map_filter_append)
  qed
qed

lemma reach_Suc:
  assumes "int i \<noteq> n"
  shows "reach n d macs (Suc i) = concat (map (neighbors n d macs) (reach n d macs i))"
proof -
  have "\<forall>t\<in>set (seqs (range_py d) i). \<forall>s. run n d macs t = Some s \<longrightarrow> sum_list (fst s) \<noteq> n"
  proof (intro ballI allI impI)
    fix t s
    assume t: "t \<in> set (seqs (range_py d) i)" and r: "run n d macs t = Some s"
    from set_seqs[OF t] have "length t = i" "set t \<subseteq> set (range_py d)" by simp_all
    with run_inv[OF _ r] assms show "sum_list (fst s) \<noteq> n" by simp
  qed
  from reach_step[OF this] show ?thesis by (simp add: reach_def)
qed

lemma nonneg_table: "nonneg (table n d macs i)"
proof (induction i)
  case 0
  then show ?case by (simp add: nonneg_def)
next
  case (Suc i)
  from grow_mstates[OF Suc] show ?case by simp
qed

lemma mstates_table:
  "i \<le> nat n \<Longrightarrow> mstates (table n d macs i) = mset (reach n d macs i)"
proof (induction i)
  case 0
  then show ?case by (simp add: mstates_def reach_def run_Nil)
next
  case (Suc i)
  then have ne: "int i \<noteq> n" by linarith
  from Suc have "mstates (table n d macs i) = mset (reach n d macs i)" by simp
  then show ?case
    using grow_mstates[OF nonneg_table, of n d macs n d macs i]
    by (simp add: reach_Suc[OF ne] succ_mset_mset)
qed

lemma constrained_reach:
  assumes "1 \<le> n"
  shows "count_keys_macs_and_en1303 n d macs
         = Inr (int (length (filter (\<lambda>t. run n d macs t \<noteq> None) (seqs (range_py d) (nat n)))))"
proof -
  have "sum_list (map snd (table n d macs (nat n))) = int (size (mstates (table n d macs (nat n))))"
    by (simp add: size_mstates[OF nonneg_table])
  also have "\<dots> = int (length (reach n d macs (nat n)))"
    by (simp add: mstates_table)
  also have "\<dots> = int (length (filter (\<lambda>t. run n d macs t \<noteq> None) (seqs (range_py d) (nat n))))"
    by (simp add: reach_def List.map_filter_def)
  finally show ?thesis by (simp add: constrained_table[OF assms])
qed

subsection \<open>Sequence predicates and their behaviour under appending a depth\<close>

lemma adj_ok_snoc:
  "adj_ok macs (t @ [b]) =
     (adj_ok macs t \<and> (t \<noteq> [] \<longrightarrow> \<not> macs < \<bar>t ! (length t - 1) - b\<bar>))"
proof
  assume a: "adj_ok macs (t @ [b])"
  have "adj_ok macs t"
    unfolding adj_ok_def
  proof (intro allI impI)
    fix i assume i: "Suc i < length t"
    with a have "\<not> macs < \<bar>(t @ [b]) ! i - (t @ [b]) ! Suc i\<bar>" by (simp add: adj_ok_def)
    with i show "\<not> macs < \<bar>t ! i - t ! Suc i\<bar>" by (simp add: nth_append)
  qed
  moreover have "t \<noteq> [] \<longrightarrow> \<not> macs < \<bar>t ! (length t - 1) - b\<bar>"
  proof
    assume "t \<noteq> []"
    then have l: "Suc (length t - 1) = length t" by (cases t) auto
    from a have "Suc (length t - 1) < length (t @ [b]) \<longrightarrow>
       \<not> macs < \<bar>(t @ [b]) ! (length t - 1) - (t @ [b]) ! Suc (length t - 1)\<bar>"
      unfolding adj_ok_def by blast
    with l show "\<not> macs < \<bar>t ! (length t - 1) - b\<bar>" by (simp add: nth_append)
  qed
  ultimately show "adj_ok macs t \<and> (t \<noteq> [] \<longrightarrow> \<not> macs < \<bar>t ! (length t - 1) - b\<bar>)" ..
next
  assume r: "adj_ok macs t \<and> (t \<noteq> [] \<longrightarrow> \<not> macs < \<bar>t ! (length t - 1) - b\<bar>)"
  show "adj_ok macs (t @ [b])"
    unfolding adj_ok_def
  proof (intro allI impI)
    fix i assume i: "Suc i < length (t @ [b])"
    show "\<not> macs < \<bar>(t @ [b]) ! i - (t @ [b]) ! Suc i\<bar>"
    proof (cases "Suc i < length t")
      case True
      with r show ?thesis by (simp add: adj_ok_def nth_append)
    next
      case False
      with i have e: "Suc i = length t" by simp
      then have ne: "t \<noteq> []" and i1: "i = length t - 1" by auto
      from e have "i < length t" by linarith
      then have n0: "(t @ [b]) ! i = t ! i" by (simp add: nth_append)
      have n1: "(t @ [b]) ! Suc i = b" unfolding e by simp
      from r ne have "\<not> macs < \<bar>t ! (length t - 1) - b\<bar>" by blast
      then show ?thesis unfolding n0 n1 unfolding i1 .
    qed
  qed
qed

lemma no_triple_snoc:
  "no_triple (t @ [b]) =
     (no_triple t \<and>
      \<not> (2 \<le> length t \<and> t ! (length t - 2) = t ! (length t - 1) \<and> t ! (length t - 1) = b))"
proof
  assume a: "no_triple (t @ [b])"
  have "no_triple t"
    unfolding no_triple_def
  proof (intro allI impI)
    fix i assume i: "Suc (Suc i) < length t"
    with a have "\<not> ((t @ [b]) ! i = (t @ [b]) ! Suc i \<and> (t @ [b]) ! Suc i = (t @ [b]) ! Suc (Suc i))"
      by (simp add: no_triple_def)
    with i show "\<not> (t ! i = t ! Suc i \<and> t ! Suc i = t ! Suc (Suc i))" by (simp add: nth_append)
  qed
  moreover have "\<not> (2 \<le> length t \<and> t ! (length t - 2) = t ! (length t - 1) \<and> t ! (length t - 1) = b)"
  proof
    assume c: "2 \<le> length t \<and> t ! (length t - 2) = t ! (length t - 1) \<and> t ! (length t - 1) = b"
    then have l: "Suc (length t - 2) = length t - 1" "Suc (Suc (length t - 2)) = length t"
      by auto
    from a have "Suc (Suc (length t - 2)) < length (t @ [b]) \<longrightarrow>
       \<not> ((t @ [b]) ! (length t - 2) = (t @ [b]) ! Suc (length t - 2) \<and>
          (t @ [b]) ! Suc (length t - 2) = (t @ [b]) ! Suc (Suc (length t - 2)))"
      unfolding no_triple_def by blast
    with l c show False by (simp add: nth_append)
  qed
  ultimately show "no_triple t \<and>
      \<not> (2 \<le> length t \<and> t ! (length t - 2) = t ! (length t - 1) \<and> t ! (length t - 1) = b)" ..
next
  assume r: "no_triple t \<and>
      \<not> (2 \<le> length t \<and> t ! (length t - 2) = t ! (length t - 1) \<and> t ! (length t - 1) = b)"
  show "no_triple (t @ [b])"
    unfolding no_triple_def
  proof (intro allI impI)
    fix i assume i: "Suc (Suc i) < length (t @ [b])"
    show "\<not> ((t @ [b]) ! i = (t @ [b]) ! Suc i \<and> (t @ [b]) ! Suc i = (t @ [b]) ! Suc (Suc i))"
    proof (cases "Suc (Suc i) < length t")
      case True
      with r show ?thesis by (simp add: no_triple_def nth_append)
    next
      case False
      with i have e: "Suc (Suc i) = length t" by simp
      then have l: "2 \<le> length t" and i2: "i = length t - 2" and i1: "Suc i = length t - 1"
        by auto
      from e have "i < length t" "Suc i < length t" by linarith+
      then have n0: "(t @ [b]) ! i = t ! i" and n1: "(t @ [b]) ! Suc i = t ! Suc i"
        by (simp_all add: nth_append)
      have n2: "(t @ [b]) ! Suc (Suc i) = b" unfolding e by simp
      from r l have "\<not> (t ! (length t - 2) = t ! (length t - 1) \<and> t ! (length t - 1) = b)"
        by blast
      then show ?thesis unfolding n0 n1 n2 unfolding i1 unfolding i2 .
    qed
  qed
qed

lemma count_list_snoc: "count_list (t @ [b]) x = count_list t x + (if x = b then 1 else 0)"
  by (induction t) auto

lemma freq_ok_snoc:
  assumes "freq_ok n t"
  shows "freq_ok n (t @ [b]) = (\<not> exceeds_half (int (count_list t b) + 1) n)"
proof
  assume a: "freq_ok n (t @ [b])"
  have "b \<in> set (t @ [b])" by simp
  with a have "\<not> exceeds_half (int (count_list (t @ [b]) b)) n"
    unfolding freq_ok_def by blast
  then show "\<not> exceeds_half (int (count_list t b) + 1) n"
    unfolding exceeds_half_iff count_list_snoc by simp
next
  assume b: "\<not> exceeds_half (int (count_list t b) + 1) n"
  show "freq_ok n (t @ [b])"
    unfolding freq_ok_def
  proof
    fix x assume x: "x \<in> set (t @ [b])"
    show "\<not> exceeds_half (int (count_list (t @ [b]) x)) n"
    proof (cases "x = b")
      case True
      with b show ?thesis unfolding exceeds_half_iff count_list_snoc by simp
    next
      case False
      with x have "x \<in> set t" by simp
      with assms have "\<not> exceeds_half (int (count_list t x)) n"
        unfolding freq_ok_def by blast
      with False show ?thesis unfolding exceeds_half_iff count_list_snoc by simp
    qed
  qed
qed

lemma freq_ok_prefix:
  assumes "freq_ok n (t @ [b])"
  shows "freq_ok n t"
  unfolding freq_ok_def
proof
  fix x assume "x \<in> set t"
  with assms have "\<not> exceeds_half (int (count_list (t @ [b]) x)) n"
    by (simp add: freq_ok_def)
  moreover have "int (count_list t x) \<le> int (count_list (t @ [b]) x)"
    unfolding count_list_snoc by simp
  ultimately show "\<not> exceeds_half (int (count_list t x)) n"
    unfolding exceeds_half_iff by linarith
qed

lemma last2_snoc: "last2 (t @ [b]) = (snd (last2 t), Some b)"
proof (cases "t = []")
  case True
  then show ?thesis by (simp add: last2_def)
next
  case False
  then have "Suc (length t - 1) = length t" by (cases t) auto
  then have "length t - 1 < length t" by linarith
  with False show ?thesis by (simp add: last2_def nth_append)
qed

lemma freq_tab_nth: "i < nat d \<Longrightarrow> freq_tab d t ! i = int (count_list t (int i))"
  by (simp add: freq_tab_def range_py_def)

lemma length_freq_tab: "length (freq_tab d t) = nat d"
  by (simp add: freq_tab_def range_py_def)

lemma freq_tab_snoc:
  assumes "b \<in> set (range_py d)"
  shows "take (nat b) (freq_tab d t) @ [freq_tab d t ! nat b + 1] @ drop (nat b + 1) (freq_tab d t)
         = freq_tab d (t @ [b])"
proof -
  from assms have b: "nat b < nat d" "int (nat b) = b" by (auto simp: in_range_py)
  let ?F = "freq_tab d t"
  have "take (nat b) ?F @ [?F ! nat b + 1] @ drop (nat b + 1) ?F = ?F[nat b := ?F ! nat b + 1]"
    using b by (simp add: upd_conv_take_nth_drop length_freq_tab)
  also have "\<dots> = freq_tab d (t @ [b])"
  proof (rule nth_equalityI)
    show "length (?F[nat b := ?F ! nat b + 1]) = length (freq_tab d (t @ [b]))"
      by (simp add: length_freq_tab)
  next
    fix i assume "i < length (?F[nat b := ?F ! nat b + 1])"
    then have i: "i < nat d" by (simp add: length_freq_tab)
    show "?F[nat b := ?F ! nat b + 1] ! i = freq_tab d (t @ [b]) ! i"
    proof (cases "i = nat b")
      case True
      with b i show ?thesis
        by (simp add: length_freq_tab freq_tab_nth count_list_snoc)
    next
      case False
      then have "int i \<noteq> b" using b by linarith
      with False i show ?thesis
        by (simp add: length_freq_tab freq_tab_nth count_list_snoc)
    qed
  qed
  finally show ?thesis .
qed

subsection \<open>The state reached by a sequence\<close>

lemma transition_char:
  assumes b: "b \<in> set (range_py d)"
  shows "transition n macs (freq_tab d t, last2 t) b =
     (if \<not> (2 \<le> length t \<and> t ! (length t - 2) = t ! (length t - 1) \<and> t ! (length t - 1) = b)
         \<and> (t \<noteq> [] \<longrightarrow> \<not> macs < \<bar>t ! (length t - 1) - b\<bar>)
         \<and> \<not> exceeds_half (int (count_list t b) + 1) n
      then Some (freq_tab d (t @ [b]), last2 (t @ [b])) else None)"
proof -
  from b have nb: "nat b < nat d" "int (nat b) = b" by (auto simp: in_range_py)
  obtain d1 d2 where l: "last2 t = (d1, d2)" by (cases "last2 t") auto
  have d1: "d1 = (if length t < 2 then None else Some (t ! (length t - 2)))"
    and d2: "d2 = (if t = [] then None else Some (t ! (length t - 1)))"
    using l by (simp_all add: last2_def)
  have c1: "(d1 = d2 \<and> d2 = Some b) =
            (2 \<le> length t \<and> t ! (length t - 2) = t ! (length t - 1) \<and> t ! (length t - 1) = b)"
  proof (cases "length t < 2")
    case True
    then show ?thesis unfolding d1 d2 by auto
  next
    case False
    then have "t \<noteq> []" by auto
    with False show ?thesis unfolding d1 d2 by auto
  qed
  have c2: "(case d2 of None \<Rightarrow> False | Some x \<Rightarrow> macs < \<bar>x - b\<bar>) =
            (\<not> (t \<noteq> [] \<longrightarrow> \<not> macs < \<bar>t ! (length t - 1) - b\<bar>))"
    unfolding d2 by simp
  have c3: "freq_tab d t ! nat b = int (count_list t b)"
    using freq_tab_nth[OF nb(1), of t] nb(2) by simp
  have l': "last2 (t @ [b]) = (d2, Some b)" by (simp add: last2_snoc l)
  have "transition n macs (freq_tab d t, d1, d2) b =
      (if d1 = d2 \<and> d2 = Some b then None
       else if (case d2 of None \<Rightarrow> False | Some x \<Rightarrow> macs < \<bar>x - b\<bar>) then None
       else if exceeds_half (freq_tab d t ! nat b + 1) n then None
       else Some (freq_tab d (t @ [b]), (d2, Some b)))"
    unfolding transition_def prod.case freq_tab_snoc[OF b] ..
  then show ?thesis
    unfolding l l' c1 c2 c3 by simp
qed

lemma freq_tab_Nil: "freq_tab d [] = replicate (nat d) 0"
  by (simp add: freq_tab_def range_py_def map_replicate_const)

lemma run_char:
  "set t \<subseteq> set (range_py d) \<Longrightarrow>
   run n d macs t =
     (if freq_ok n t \<and> adj_ok macs t \<and> no_triple t then Some (freq_tab d t, last2 t) else None)"
proof (induction t rule: rev_induct)
  case Nil
  have "freq_ok n []" "adj_ok macs []" "no_triple []"
    by (simp_all add: freq_ok_def adj_ok_def no_triple_def)
  then show ?case
    by (simp add: run_Nil initial_state_def freq_tab_Nil last2_def)
next
  case (snoc b t)
  then have sub: "set t \<subseteq> set (range_py d)" and b: "b \<in> set (range_py d)" by auto
  note IH = snoc.IH[OF sub]
  show ?case
  proof (cases "freq_ok n t \<and> adj_ok macs t \<and> no_triple t")
    case False
    then have "\<not> (freq_ok n (t @ [b]) \<and> adj_ok macs (t @ [b]) \<and> no_triple (t @ [b]))"
      using freq_ok_prefix[of n t b] adj_ok_snoc[of macs t b] no_triple_snoc[of t b] by blast
    then have e: "(if freq_ok n (t @ [b]) \<and> adj_ok macs (t @ [b]) \<and> no_triple (t @ [b])
                   then Some (freq_tab d (t @ [b]), last2 (t @ [b])) else None) = None"
      by (rule if_not_P)
    have r: "run n d macs t = None" unfolding IH using False by (rule if_not_P)
    show ?thesis unfolding e run_snoc r by simp
  next
    case True
    then have f: "freq_ok n t" by simp
    have r: "run n d macs t = Some (freq_tab d t, last2 t)"
      unfolding IH using True by (rule if_P)
    have ok: "(freq_ok n (t @ [b]) \<and> adj_ok macs (t @ [b]) \<and> no_triple (t @ [b])) =
        (\<not> (2 \<le> length t \<and> t ! (length t - 2) = t ! (length t - 1) \<and> t ! (length t - 1) = b)
         \<and> (t \<noteq> [] \<longrightarrow> \<not> macs < \<bar>t ! (length t - 1) - b\<bar>)
         \<and> \<not> exceeds_half (int (count_list t b) + 1) n)"
      unfolding freq_ok_snoc[OF f] adj_ok_snoc no_triple_snoc using True by blast
    show ?thesis
      unfolding run_snoc r option.case transition_char[OF b] ok[symmetric] ..
  qed
qed

subsection \<open>The predicate good in terms of the sequence predicates\<close>

lemma map_of_dd_add: "map_of (dd_add m k w) = (map_of m)(k \<mapsto> dd_get m k + w)"
  by (simp add: dd_add_def update_conv')

lemma dd_get_dd_add: "dd_get (dd_add m k w) x = (if x = k then dd_get m k + w else dd_get m x)"
  by (simp add: dd_get_def map_of_dd_add)

lemma map_of_tally:
  "map_of (fold (\<lambda>x fr. dd_add fr x 1) t fr0) x =
     (if x \<in> set t then Some (dd_get fr0 x + int (count_list t x)) else map_of fr0 x)"
proof (induction t arbitrary: fr0)
  case Nil
  then show ?case by simp
next
  case (Cons a t)
  show ?case
    unfolding fold_Cons comp_def Cons.IH
    by (auto simp: dd_get_dd_add map_of_dd_add)
qed

lemma tally_values:
  "snd ` set (fold (\<lambda>x fr. dd_add fr x 1) t []) = (\<lambda>x. int (count_list t x)) ` set t"
proof -
  let ?fr = "fold (\<lambda>x fr. dd_add fr x 1) t []"
  have d: "distinct (map fst ?fr)" by (rule distinct_fold_dd_add) simp
  have m: "\<And>k c. ((k, c) \<in> set ?fr) = (k \<in> set t \<and> c = int (count_list t k))"
  proof -
    fix k c
    have "((k, c) \<in> set ?fr) = (map_of ?fr k = Some c)"
      using d by simp
    also have "\<dots> = (k \<in> set t \<and> c = int (count_list t k))"
      unfolding map_of_tally by (auto simp: dd_get_def)
    finally show "((k, c) \<in> set ?fr) = (k \<in> set t \<and> c = int (count_list t k))" .
  qed
  show ?thesis
  proof (rule set_eqI)
    fix c
    have "(c \<in> snd ` set ?fr) = (\<exists>k. (k, c) \<in> set ?fr)" by force
    also have "\<dots> = (\<exists>k. k \<in> set t \<and> c = int (count_list t k))" unfolding m ..
    also have "\<dots> = (c \<in> (\<lambda>x. int (count_list t x)) ` set t)" by blast
    finally show "(c \<in> snd ` set ?fr) = (c \<in> (\<lambda>x. int (count_list t x)) ` set t)" .
  qed
qed

lemma tally_index:
  assumes "length t = nat n"
  shows "fold (\<lambda>i fr. dd_add fr (t ! nat i) 1) (range_py n) [] = fold (\<lambda>x fr. dd_add fr x 1) t []"
proof -
  have "fold (\<lambda>i fr. dd_add fr (t ! nat i) 1) (range_py n) []
        = fold (\<lambda>x fr. dd_add fr x 1) (map (\<lambda>i. t ! i) [0..<length t]) []"
    unfolding range_py_def fold_map assms[symmetric] by (simp add: comp_def)
  then show ?thesis by (simp add: map_nth)
qed

lemma good_char:
  assumes "length t = nat n"
  shows "good n macs t = (freq_ok n t \<and> adj_ok macs t \<and> no_triple t)"
proof -
  have f: "list_ex (\<lambda>f. exceeds_half f n)
             (map snd (fold (\<lambda>i fr. dd_add fr (t ! nat i) 1) (range_py n) [])) = (\<not> freq_ok n t)"
    unfolding tally_index[OF assms] list_ex_iff set_map tally_values freq_ok_def by blast
  have l1: "nat (n - 1) = length t - 1" and l2: "nat (n - 2) = length t - 2"
    using assms by linarith+
  have a: "list_ex (\<lambda>i. macs < \<bar>t ! nat i - t ! nat (i + 1)\<bar>) (range_py (n - 1))
           = (\<not> adj_ok macs t)"
  proof -
    have "list_ex (\<lambda>i. macs < \<bar>t ! nat i - t ! nat (i + 1)\<bar>) (range_py (n - 1))
          = (\<exists>i<length t - 1. macs < \<bar>t ! i - t ! Suc i\<bar>)"
      unfolding list_ex_iff range_py_def l1 by (auto simp: nat_add_distrib)
    also have "\<dots> = (\<exists>i. Suc i < length t \<and> macs < \<bar>t ! i - t ! Suc i\<bar>)"
      by (metis Suc_lessD less_diff_conv Suc_eq_plus1)
    finally show ?thesis unfolding adj_ok_def by blast
  qed
  have c: "list_ex (\<lambda>i. t ! nat i = t ! nat (i + 1) \<and> t ! nat (i + 1) = t ! nat (i + 2))
             (range_py (n - 2)) = (\<not> no_triple t)"
  proof -
    have "list_ex (\<lambda>i. t ! nat i = t ! nat (i + 1) \<and> t ! nat (i + 1) = t ! nat (i + 2))
             (range_py (n - 2))
          = (\<exists>i<length t - 2. t ! i = t ! Suc i \<and> t ! Suc i = t ! Suc (Suc i))"
      unfolding list_ex_iff range_py_def l2 by (auto simp: nat_add_distrib)
    also have "\<dots> = (\<exists>i. Suc (Suc i) < length t \<and> t ! i = t ! Suc i \<and> t ! Suc i = t ! Suc (Suc i))"
      by (metis add_2_eq_Suc' less_diff_conv)
    finally show ?thesis unfolding no_triple_def by blast
  qed
  show ?thesis unfolding good_def Let_def f a c by simp
qed

subsection \<open>Enumerations of all sequences, and the equivalence with brute\<close>

lemma set_seqs_eq: "set (seqs xs k) = {t. length t = k \<and> set t \<subseteq> set xs}"
proof (rule set_eqI, rule iffI)
  fix t assume "t \<in> set (seqs xs k)"
  from set_seqs[OF this] show "t \<in> {t. length t = k \<and> set t \<subseteq> set xs}" by simp
next
  fix t assume "t \<in> {t. length t = k \<and> set t \<subseteq> set xs}"
  then show "t \<in> set (seqs xs k)"
  proof (induction k arbitrary: t)
    case 0
    then show ?case by simp
  next
    case (Suc k)
    then have "t \<noteq> []" by auto
    then obtain t0 b where t: "t = t0 @ [b]" by (metis rev_exhaust)
    with Suc.prems have "t0 \<in> {t. length t = k \<and> set t \<subseteq> set xs}" "b \<in> set xs" by auto
    with Suc.IH[of t0] t show ?case by auto
  qed
qed

lemma set_product_repeat: "set (product_repeat xs k) = {t. length t = k \<and> set t \<subseteq> set xs}"
proof (induction k)
  case 0
  then show ?case by auto
next
  case (Suc k)
  show ?case
  proof (rule set_eqI, rule iffI)
    fix t assume "t \<in> set (product_repeat xs (Suc k))"
    then obtain x t0 where "x \<in> set xs" "t0 \<in> set (product_repeat xs k)" "t = x # t0" by auto
    with Suc show "t \<in> {t. length t = Suc k \<and> set t \<subseteq> set xs}" by auto
  next
    fix t assume a: "t \<in> {t. length t = Suc k \<and> set t \<subseteq> set xs}"
    then obtain x t0 where t: "t = x # t0" by (cases t) auto
    with a have "x \<in> set xs" "t0 \<in> {t. length t = k \<and> set t \<subseteq> set xs}" by auto
    with Suc t show "t \<in> set (product_repeat xs (Suc k))" by auto
  qed
qed

lemma length_seqs: "length (seqs xs k) = length xs ^ k"
  by (induction k) (simp_all add: length_concat comp_def sum_list_triv)

lemma length_product_repeat: "length (product_repeat xs k) = length xs ^ k"
  by (induction k) (simp_all add: length_concat comp_def sum_list_triv)

lemma card_all_seqs:
  "distinct xs \<Longrightarrow> card {t. length t = k \<and> set t \<subseteq> set xs} = length xs ^ k"
proof -
  assume d: "distinct xs"
  have "{t. length t = k \<and> set t \<subseteq> set xs} = {t. set t \<subseteq> set xs \<and> length t = k}" by auto
  then show ?thesis
    using card_lists_length_eq[of "set xs" k] distinct_card[OF d] by simp
qed

lemma distinct_seqs: "distinct xs \<Longrightarrow> distinct (seqs xs k)"
  by (rule card_distinct) (simp add: set_seqs_eq card_all_seqs length_seqs)

lemma distinct_product_repeat: "distinct xs \<Longrightarrow> distinct (product_repeat xs k)"
  by (rule card_distinct) (simp add: set_product_repeat card_all_seqs length_product_repeat)

lemma distinct_range_py: "distinct (range_py d)"
  by (simp add: range_py_def distinct_map)

lemma count_seqs_product:
  assumes "distinct xs"
    and "\<And>t. length t = k \<Longrightarrow> set t \<subseteq> set xs \<Longrightarrow> P t = Q t"
  shows "length (filter P (seqs xs k)) = length (filter Q (product_repeat xs k))"
proof -
  have "{t. P t} \<inter> set (seqs xs k) = {t. Q t} \<inter> set (product_repeat xs k)"
    unfolding set_seqs_eq set_product_repeat using assms(2) by auto
  then show ?thesis
    using distinct_length_filter[OF distinct_seqs[OF assms(1)], of P k]
      distinct_length_filter[OF distinct_product_repeat[OF assms(1)], of Q k] by simp
qed

lemma brute_length:
  "0 \<le> n \<Longrightarrow> brute n d macs
     = Inr (int (length (filter (good n macs) (product_repeat (range_py d) (nat n)))))"
  by (simp add: brute_def sum_list_triv)

text \<open>
  On the sequences of length \<open>n\<close> over \<open>range(d)\<close>, passing every transition is the
  same as passing \<open>good\<close>.
\<close>

lemma transitions_iff_good:
  assumes "length t = nat n" "set t \<subseteq> set (range_py d)"
  shows "(run n d macs t \<noteq> None) = good n macs t"
  unfolding run_char[OF assms(2)] good_char[OF assms(1)] by simp

lemma constrained_eq_brute:
  assumes "1 \<le> n"
  shows "count_keys_macs_and_en1303 n d macs = brute n d macs"
proof -
  have "length (filter (\<lambda>t. run n d macs t \<noteq> None) (seqs (range_py d) (nat n)))
        = length (filter (good n macs) (product_repeat (range_py d) (nat n)))"
  proof (rule count_seqs_product[OF distinct_range_py])
    fix t assume l: "length t = nat n" and s: "set t \<subseteq> set (range_py d)"
    show "(run n d macs t \<noteq> None) = good n macs t"
      by (rule transitions_iff_good[OF l s])
  qed
  with assms show ?thesis by (simp add: constrained_reach brute_length)
qed

subsection \<open>Entries of the matrix power as numbers of sequences\<close>

lemma len_filter_sum: "int (length (filter P xs)) = sum_list (map (\<lambda>x. of_bool (P x)) xs)"
  by (induction xs) simp_all

lemma len_filter_concat:
  "length (filter P (concat xss)) = sum_list (map (\<lambda>xs. length (filter P xs)) xss)"
  by (induction xss) simp_all

lemma sum_list_swap:
  "sum_list (map (\<lambda>x. sum_list (map (f x) ys)) xs)
   = (sum_list (map (\<lambda>y. sum_list (map (\<lambda>x. f x y) xs)) ys) :: int)"
  by (induction xs) (simp_all add: sum_list_addf)

lemma sum_upt_delta:
  "sum_list (map (\<lambda>l. of_bool (l = a) * g l) [0..<D]) = (of_bool (a < D) * g a :: int)"
  by (induction D) auto

lemma filter_eq_distinct:
  "distinct xs \<Longrightarrow> length (filter (\<lambda>b. b = j \<and> R b) xs) = (if j \<in> set xs \<and> R j then 1 else 0)"
  by (induction xs) auto

lemma nth_range_py: "i < nat d \<Longrightarrow> range_py d ! i = int i"
  by (simp add: range_py_def)

lemma length_range_py: "length (range_py d) = nat d"
  by (simp add: range_py_def)

lemma nth_mat_mul:
  "i < D \<Longrightarrow> j < D \<Longrightarrow> mat_mul D A B ! i ! j = sum_list (map (\<lambda>l. A ! i ! l * B ! l ! j) [0..<D])"
  by (simp add: mat_mul_def)

lemma nth_eye: "i < D \<Longrightarrow> j < D \<Longrightarrow> eye D ! i ! j = of_bool (i = j)"
  by (simp add: eye_def)

lemma nth_adjacency:
  "i < nat d \<Longrightarrow> j < nat d \<Longrightarrow> adjacency d macs ! i ! j = of_bool (\<not> macs < \<bar>int i - int j\<bar>)"
  by (simp add: adjacency_def length_range_py nth_range_py)

lemma adj_ok_single: "adj_ok macs [b]"
  by (simp add: adj_ok_def)

lemma seqs_nonempty:
  assumes "t \<in> set (seqs xs (Suc k))"
  shows "t \<noteq> []"
proof -
  from set_seqs[OF assms] have "length t = Suc k" by simp
  then show ?thesis by auto
qed

lemma seqs_last:
  assumes "t \<in> set (seqs xs (Suc k))"
  shows "last t \<in> set xs"
proof -
  from set_seqs[OF assms] have s: "set t \<subseteq> set xs" by simp
  from seqs_nonempty[OF assms] have "last t \<in> set t" by simp
  with s show ?thesis by blast
qed

lemma seqs_hd:
  assumes "t \<in> set (seqs xs (Suc k))"
  shows "hd t \<in> set xs"
proof -
  from set_seqs[OF assms] have s: "set t \<subseteq> set xs" by simp
  from seqs_nonempty[OF assms] have "hd t \<in> set t" by simp
  with s show ?thesis by blast
qed

lemma range_py_nat: "c \<in> set (range_py d) \<Longrightarrow> nat c < nat d \<and> int (nat c) = c"
  by (auto simp: in_range_py)

text \<open>The number of extensions of \<open>t\<close> by one depth that end in \<open>j\<close>.\<close>

lemma extend_count:
  assumes t: "t \<noteq> []" and j: "j < nat d"
  shows "length (filter (\<lambda>t'. hd t' = c \<and> last t' = int j \<and> adj_ok macs t')
                  (map (\<lambda>b. t @ [b]) (range_py d)))
         = (if hd t = c \<and> adj_ok macs t \<and> \<not> macs < \<bar>last t - int j\<bar> then 1 else 0)"
proof -
  have jm: "int j \<in> set (range_py d)" using j by (simp add: in_range_py)
  have l: "t ! (length t - Suc 0) = last t" using t by (simp add: last_conv_nth)
  have "length (filter (\<lambda>t'. hd t' = c \<and> last t' = int j \<and> adj_ok macs t')
                  (map (\<lambda>b. t @ [b]) (range_py d)))
        = length (filter (\<lambda>b. b = int j \<and> (hd t = c \<and> adj_ok macs t \<and> \<not> macs < \<bar>last t - b\<bar>))
                  (range_py d))"
    unfolding filter_map length_map comp_def using t
    by (intro arg_cong[where f=length] filter_cong) (auto simp: adj_ok_snoc l)
  also have "\<dots> = (if hd t = c \<and> adj_ok macs t \<and> \<not> macs < \<bar>last t - int j\<bar> then 1 else 0)"
    using filter_eq_distinct[OF distinct_range_py, of "int j"
        "\<lambda>b. hd t = c \<and> adj_ok macs t \<and> \<not> macs < \<bar>last t - b\<bar>" d] jm by simp
  finally show ?thesis .
qed

lemma int_sum_ind:
  "int (sum_list (map (\<lambda>t. if P t then 1 else 0) xs)) = sum_list (map (\<lambda>t. if P t then 1 else 0) xs)"
  by (induction xs) simp_all

lemma paths_entry:
  "i < nat d \<Longrightarrow> j < nat d \<Longrightarrow>
   matrix_power (nat d) (adjacency d macs) k ! i ! j
   = int (length (filter (\<lambda>t. hd t = int i \<and> last t = int j \<and> adj_ok macs t)
                    (seqs (range_py d) (Suc k))))"
proof (induction k arbitrary: j)
  case 0
  have im: "int i \<in> set (range_py d)" using 0 by (simp add: in_range_py)
  have "length (filter (\<lambda>t. hd t = int i \<and> last t = int j \<and> adj_ok macs t)
                  (map (\<lambda>b. [b]) (range_py d)))
        = length (filter (\<lambda>b. b = int i \<and> b = int j) (range_py d))"
    unfolding filter_map length_map comp_def by (simp add: adj_ok_single)
  also have "\<dots> = (if i = j then 1 else 0)"
    using filter_eq_distinct[OF distinct_range_py, of "int i" "\<lambda>b. b = int j" d] im by simp
  finally show ?case using 0 by (simp add: nth_eye)
next
  case (Suc k)
  let ?D = "nat d"
  define ob :: "bool \<Rightarrow> int" where "ob = of_bool"
  have ob: "\<And>P. ob P = (if P then 1 else 0)" by (simp add: ob_def)
  let ?T = "seqs (range_py d) (Suc k)"
  let ?Q = "\<lambda>l t. hd t = int i \<and> last t = int l \<and> adj_ok macs t"
  let ?R = "\<lambda>t. hd t = int i \<and> adj_ok macs t \<and> \<not> macs < \<bar>last t - int j\<bar>"
  have lhs: "matrix_power ?D (adjacency d macs) (Suc k) ! i ! j
      = sum_list (map (\<lambda>l. sum_list (map (\<lambda>t. ob (?Q l t) * ob (\<not> macs < \<bar>int l - int j\<bar>)) ?T))
          [0..<?D])"
  proof -
    have "matrix_power ?D (adjacency d macs) (Suc k) ! i ! j
        = sum_list (map (\<lambda>l. matrix_power ?D (adjacency d macs) k ! i ! l * adjacency d macs ! l ! j)
            [0..<?D])"
      using Suc.prems by (simp add: nth_mat_mul)
    also have "\<dots> = sum_list (map (\<lambda>l. int (length (filter (?Q l) ?T))
                                  * ob (\<not> macs < \<bar>int l - int j\<bar>)) [0..<?D])"
      using Suc.prems Suc.IH
      by (intro arg_cong[where f=sum_list] map_cong) (simp_all add: nth_adjacency ob_def)
    finally show ?thesis
      by (simp add: len_filter_sum sum_list_mult_const ob_def)
  qed
  have inner: "\<And>t. t \<in> set ?T \<Longrightarrow>
      sum_list (map (\<lambda>l. ob (?Q l t) * ob (\<not> macs < \<bar>int l - int j\<bar>)) [0..<?D])
      = (ob (?R t) :: int)"
  proof -
    fix t assume t: "t \<in> set ?T"
    from range_py_nat[OF seqs_last[OF t]]
    have a: "nat (last t) < ?D" and b: "int (nat (last t)) = last t" by simp_all
    have "sum_list (map (\<lambda>l. ob (?Q l t) * ob (\<not> macs < \<bar>int l - int j\<bar>)) [0..<?D])
        = sum_list (map (\<lambda>l. ob (l = nat (last t))
              * (ob (hd t = int i \<and> adj_ok macs t) * ob (\<not> macs < \<bar>int l - int j\<bar>)))
            [0..<?D])"
      using b by (intro arg_cong[where f=sum_list] map_cong) (auto simp: ob)
    also have "\<dots> = ob (hd t = int i \<and> adj_ok macs t)
                     * ob (\<not> macs < \<bar>last t - int j\<bar>)"
      unfolding ob_def sum_upt_delta using a b by simp
    finally show "sum_list (map (\<lambda>l. ob (?Q l t) * ob (\<not> macs < \<bar>int l - int j\<bar>)) [0..<?D])
      = (ob (?R t) :: int)" by (simp add: ob)
  qed
  have "matrix_power ?D (adjacency d macs) (Suc k) ! i ! j
        = sum_list (map (\<lambda>t. ob (?R t)) ?T)"
    unfolding lhs sum_list_swap[of _ ?T]
    by (intro arg_cong[where f=sum_list] map_cong) (simp_all add: inner)
  also have "\<dots> = int (length (filter (?Q j) (seqs (range_py d) (Suc (Suc k)))))"
  proof -
    have "length (filter (?Q j) (seqs (range_py d) (Suc (Suc k))))
          = sum_list (map (\<lambda>t. length (filter (?Q j) (map (\<lambda>b. t @ [b]) (range_py d)))) ?T)"
      unfolding seqs.simps(2)[of _ "Suc k"] len_filter_concat map_map comp_def ..
    also have "\<dots> = sum_list (map (\<lambda>t. if ?R t then 1 else 0) ?T)"
    proof (intro arg_cong[where f=sum_list] map_cong refl)
      fix t assume t: "t \<in> set ?T"
      show "length (filter (?Q j) (map (\<lambda>b. t @ [b]) (range_py d))) = (if ?R t then 1 else 0)"
        by (rule extend_count[OF seqs_nonempty[OF t] Suc.prems(2)])
    qed
    finally have e: "length (filter (?Q j) (seqs (range_py d) (Suc (Suc k))))
                     = sum_list (map (\<lambda>t. if ?R t then 1 else 0) ?T)" .
    show ?thesis unfolding e int_sum_ind ob ..
  qed
  finally show ?case .
qed

subsection \<open>The transfer-matrix count as a number of sequences\<close>

lemma macs_valid_char:
  assumes "length t = nat n"
  shows "macs_valid n macs t = adj_ok macs t"
proof -
  have l1: "nat (n - 1) = length t - 1" using assms by linarith
  have "list_ex (\<lambda>i. macs < \<bar>t ! nat i - t ! nat (i + 1)\<bar>) (range_py (n - 1))
        = (\<exists>i<length t - 1. macs < \<bar>t ! i - t ! Suc i\<bar>)"
    unfolding list_ex_iff range_py_def l1 by (auto simp: nat_add_distrib)
  also have "\<dots> = (\<exists>i. Suc i < length t \<and> macs < \<bar>t ! i - t ! Suc i\<bar>)"
    by (metis Suc_lessD less_diff_conv Suc_eq_plus1)
  finally show ?thesis unfolding macs_valid_def adj_ok_def by blast
qed

lemma matrix_power_shape:
  "length (matrix_power D A k) = D \<and> (\<forall>i<D. length (matrix_power D A k ! i) = D)"
  by (cases k) (simp_all add: eye_def mat_mul_def)

lemma sum_list_nth: "sum_list xs = sum_list (map (\<lambda>i. xs ! i) [0..<length xs])"
  by (simp add: map_nth)

lemma mat_sum_nth:
  assumes "length M = D" "\<forall>i<D. length (M ! i) = D"
  shows "mat_sum M = sum_list (map (\<lambda>i. sum_list (map (\<lambda>j. M ! i ! j) [0..<D])) [0..<D])"
proof -
  have "map sum_list M = map (\<lambda>i. sum_list (M ! i)) [0..<D]"
    using assms(1) by (intro nth_equalityI) simp_all
  also have "\<dots> = map (\<lambda>i. sum_list (map (\<lambda>j. M ! i ! j) [0..<D])) [0..<D]"
  proof (intro map_cong refl)
    fix i assume "i \<in> set [0..<D]"
    then have "length (M ! i) = D" using assms(2) by simp
    then show "sum_list (M ! i) = sum_list (map (\<lambda>j. M ! i ! j) [0..<D])"
      using sum_list_nth[of "M ! i"] by simp
  qed
  finally show ?thesis by (simp add: mat_sum_def)
qed

lemma sum_upt_delta_bool:
  "a < D \<Longrightarrow> sum_list (map (\<lambda>l. of_bool (l = a \<and> R)) [0..<D]) = (of_bool R :: int)"
proof -
  assume a: "a < D"
  have "sum_list (map (\<lambda>l. of_bool (l = a \<and> R)) [0..<D])
        = sum_list (map (\<lambda>l. of_bool (l = a) * (of_bool R :: int)) [0..<D])"
    by (intro arg_cong[where f=sum_list] map_cong) auto
  also have "\<dots> = of_bool R" unfolding sum_upt_delta[of a "\<lambda>_. of_bool R" D] using a by simp
  finally show ?thesis .
qed

lemma all_entries:
  assumes t: "t \<in> set (seqs (range_py d) (Suc k))"
  shows "sum_list (map (\<lambda>i. sum_list (map (\<lambda>j.
            of_bool (hd t = int i \<and> last t = int j \<and> adj_ok macs t)) [0..<nat d])) [0..<nat d])
         = (of_bool (adj_ok macs t) :: int)"
proof -
  from range_py_nat[OF seqs_last[OF t]]
  have a: "nat (last t) < nat d" and b: "int (nat (last t)) = last t" by simp_all
  from range_py_nat[OF seqs_hd[OF t]]
  have a': "nat (hd t) < nat d" and b': "int (nat (hd t)) = hd t" by simp_all
  have inner: "\<And>i. sum_list (map (\<lambda>j. of_bool (hd t = int i \<and> last t = int j \<and> adj_ok macs t))
                        [0..<nat d])
               = (of_bool (hd t = int i \<and> adj_ok macs t) :: int)"
  proof -
    fix i
    have "sum_list (map (\<lambda>j. of_bool (hd t = int i \<and> last t = int j \<and> adj_ok macs t)) [0..<nat d])
        = sum_list (map (\<lambda>j. of_bool (j = nat (last t) \<and> (hd t = int i \<and> adj_ok macs t)) :: int)
            [0..<nat d])"
      using b by (intro arg_cong[where f=sum_list] map_cong) auto
    then show "sum_list (map (\<lambda>j. of_bool (hd t = int i \<and> last t = int j \<and> adj_ok macs t))
                        [0..<nat d])
               = (of_bool (hd t = int i \<and> adj_ok macs t) :: int)"
      unfolding sum_upt_delta_bool[OF a] .
  qed
  have "sum_list (map (\<lambda>i. of_bool (hd t = int i \<and> adj_ok macs t)) [0..<nat d])
        = sum_list (map (\<lambda>i. of_bool (i = nat (hd t) \<and> adj_ok macs t) :: int) [0..<nat d])"
    using b' by (intro arg_cong[where f=sum_list] map_cong) auto
  then have "sum_list (map (\<lambda>i. of_bool (hd t = int i \<and> adj_ok macs t)) [0..<nat d])
        = (of_bool (adj_ok macs t) :: int)"
    unfolding sum_upt_delta_bool[OF a'] .
  then show ?thesis unfolding inner .
qed

lemma sum_entries:
  "mat_sum (matrix_power (nat d) (adjacency d macs) k)
   = int (length (filter (adj_ok macs) (seqs (range_py d) (Suc k))))"
proof -
  let ?D = "nat d" and ?T = "seqs (range_py d) (Suc k)"
  let ?P = "matrix_power ?D (adjacency d macs) k"
  let ?f = "\<lambda>i j t. (of_bool (hd t = int i \<and> last t = int j \<and> adj_ok macs t) :: int)"
  have "mat_sum ?P = sum_list (map (\<lambda>i. sum_list (map (\<lambda>j. ?P ! i ! j) [0..<?D])) [0..<?D])"
    using mat_sum_nth[of ?P ?D] matrix_power_shape[of ?D "adjacency d macs" k] by blast
  also have "\<dots> = sum_list (map (\<lambda>i. sum_list (map (\<lambda>j. sum_list (map (?f i j) ?T)) [0..<?D]))
                      [0..<?D])"
    by (intro arg_cong[where f=sum_list] map_cong refl)
       (simp add: paths_entry len_filter_sum)
  also have "\<dots> = sum_list (map (\<lambda>i. sum_list (map (\<lambda>t. sum_list (map (\<lambda>j. ?f i j t) [0..<?D])) ?T))
                      [0..<?D])"
    unfolding sum_list_swap[of _ ?T "[0..<?D]"] ..
  also have "\<dots> = sum_list (map (\<lambda>t. sum_list (map (\<lambda>i. sum_list (map (\<lambda>j. ?f i j t) [0..<?D]))
                      [0..<?D])) ?T)"
    unfolding sum_list_swap[of _ ?T "[0..<?D]"] ..
  also have "\<dots> = sum_list (map (\<lambda>t. of_bool (adj_ok macs t)) ?T)"
    by (intro arg_cong[where f=sum_list] map_cong refl) (rule all_entries)
  finally show ?thesis unfolding len_filter_sum .
qed

lemma count_keys_seqs:
  assumes "1 \<le> n" "0 \<le> d"
  shows "count_keys n d macs
         = Inr (int (length (filter (adj_ok macs) (seqs (range_py d) (nat n)))))"
proof -
  from assms have "Suc (nat (n - 1)) = nat n" by linarith
  with sum_entries[of d macs "nat (n - 1)"] assms show ?thesis
    by (simp add: count_keys_def)
qed

lemma count_keys_product:
  assumes "1 \<le> n" "0 \<le> d"
  shows "count_keys n d macs
         = Inr (int (length (filter (macs_valid n macs) (product_repeat (range_py d) (nat n)))))"
proof -
  have "length (filter (adj_ok macs) (seqs (range_py d) (nat n)))
        = length (filter (macs_valid n macs) (product_repeat (range_py d) (nat n)))"
    by (rule count_seqs_product[OF distinct_range_py]) (simp add: macs_valid_char)
  then show ?thesis by (simp add: count_keys_seqs[OF assms])
qed

lemma paths_entry_product:
  assumes "1 \<le> n" "i \<in> set (range_py d)" "j \<in> set (range_py d)"
  shows "matrix_power (nat d) (adjacency d macs) (nat (n - 1)) ! nat i ! nat j
         = int (length (filter (\<lambda>t. hd t = i \<and> last t = j \<and> macs_valid n macs t)
                          (product_repeat (range_py d) (nat n))))"
proof -
  from assms(1) have s: "Suc (nat (n - 1)) = nat n" by linarith
  from range_py_nat[OF assms(2)] have i: "nat i < nat d" "int (nat i) = i" by simp_all
  from range_py_nat[OF assms(3)] have j: "nat j < nat d" "int (nat j) = j" by simp_all
  have e: "length (filter (\<lambda>t. hd t = i \<and> last t = j \<and> adj_ok macs t) (seqs (range_py d) (nat n)))
        = length (filter (\<lambda>t. hd t = i \<and> last t = j \<and> macs_valid n macs t)
                    (product_repeat (range_py d) (nat n)))"
    by (rule count_seqs_product[OF distinct_range_py]) (simp add: macs_valid_char)
  show ?thesis
    using paths_entry[OF i(1) j(1), of macs "nat (n - 1)"] unfolding s i(2) j(2) e .
qed

subsection \<open>Comparisons of the counters, single depth, and the level invariant\<close>

lemma length_filter_mono:
  "(\<And>x. x \<in> set xs \<Longrightarrow> P x \<Longrightarrow> Q x) \<Longrightarrow> length (filter P xs) \<le> length (filter Q xs)"
proof (induction xs)
  case Nil
  then show ?case by simp
next
  case (Cons x xs)
  then have "length (filter P xs) \<le> length (filter Q xs)" by simp
  moreover have "P x \<Longrightarrow> Q x" using Cons.prems by simp
  ultimately show ?case by auto
qed

lemma adj_ok_mono: "macs1 \<le> macs2 \<Longrightarrow> adj_ok macs1 t \<Longrightarrow> adj_ok macs2 t"
  unfolding adj_ok_def by fastforce

lemma good_imp_macs_valid: "good n macs t \<Longrightarrow> macs_valid n macs t"
  unfolding good_def macs_valid_def Let_def by (auto split: if_splits)

lemma adjacency_upper_bound:
  assumes "1 \<le> n" "0 \<le> d"
  shows "\<exists>a c. count_keys n d macs = Inr a \<and> count_keys_macs_and_en1303 n d macs = Inr c \<and> c \<le> a"
proof -
  have "length (filter (good n macs) (product_repeat (range_py d) (nat n)))
        \<le> length (filter (macs_valid n macs) (product_repeat (range_py d) (nat n)))"
    by (rule length_filter_mono) (rule good_imp_macs_valid)
  then show ?thesis
    using assms by (simp add: count_keys_product constrained_eq_brute brute_length)
qed

lemma count_keys_mono:
  assumes "0 \<le> n" "0 \<le> d" "macs1 \<le> macs2"
  shows "\<exists>a b. count_keys n d macs1 = Inr a \<and> count_keys n d macs2 = Inr b \<and> a \<le> b"
proof (cases "n = 0")
  case True
  then show ?thesis by (simp add: count_keys_def)
next
  case False
  with assms have n: "1 \<le> n" by simp
  have "length (filter (adj_ok macs1) (seqs (range_py d) (nat n)))
        \<le> length (filter (adj_ok macs2) (seqs (range_py d) (nat n)))"
    by (rule length_filter_mono) (rule adj_ok_mono[OF assms(3)])
  then show ?thesis by (simp add: count_keys_seqs[OF n assms(2)])
qed

lemma constrained_mono:
  assumes "1 \<le> n" "macs1 \<le> macs2"
  shows "\<exists>a b. count_keys_macs_and_en1303 n d macs1 = Inr a \<and>
               count_keys_macs_and_en1303 n d macs2 = Inr b \<and> a \<le> b"
proof -
  have "length (filter (good n macs1) (product_repeat (range_py d) (nat n)))
        \<le> length (filter (good n macs2) (product_repeat (range_py d) (nat n)))"
  proof (rule length_filter_mono)
    fix t assume "t \<in> set (product_repeat (range_py d) (nat n))" and g: "good n macs1 t"
    then have l: "length t = nat n" by (simp add: set_product_repeat)
    from g show "good n macs2 t"
      unfolding good_char[OF l] using adj_ok_mono[OF assms(2)] by blast
  qed
  then show ?thesis using assms(1) by (simp add: constrained_eq_brute brute_length)
qed

lemma count_list_all_same: "set t \<subseteq> {x} \<Longrightarrow> count_list t x = length t"
  by (induction t) auto

lemma range_py_1: "range_py 1 = [0]"
  by (simp add: range_py_def)

lemma constrained_single_depth:
  assumes "1 \<le> n"
  shows "count_keys_macs_and_en1303 n 1 macs = Inr 0"
proof -
  have "filter (good n macs) (product_repeat (range_py 1) (nat n)) = []"
    unfolding filter_empty_conv
  proof
    fix t assume "t \<in> set (product_repeat (range_py 1) (nat n))"
    then have l: "length t = nat n" and s: "set t \<subseteq> {0}"
      by (simp_all add: set_product_repeat range_py_1)
    from l assms have "t \<noteq> []" by auto
    then have "hd t \<in> set t" by simp
    with s have m: "0 \<in> set t" by auto
    have "int (count_list t 0) = n" using count_list_all_same[OF s] l assms by simp
    with assms have "exceeds_half (int (count_list t 0)) n" by (simp add: exceeds_half_iff)
    with m have "\<not> freq_ok n t" unfolding freq_ok_def by blast
    then show "\<not> good n macs t" unfolding good_char[OF l] by simp
  qed
  then show ?thesis using assms by (simp add: constrained_eq_brute brute_length)
qed

lemma seqs_single: "seqs [x] k = [replicate k x]"
  by (induction k) (simp_all add: replicate_append_same)

lemma adj_ok_replicate: "0 \<le> macs \<Longrightarrow> adj_ok macs (replicate k x)"
  by (simp add: adj_ok_def)

lemma count_keys_single_depth:
  assumes "1 \<le> n" "0 \<le> macs"
  shows "count_keys n 1 macs = Inr 1"
  using assms by (simp add: count_keys_seqs range_py_1 seqs_single adj_ok_replicate)

text \<open>The states of a level are the successors of the states of the level before.\<close>

lemma keys_dd_add: "fst ` set (dd_add al v w) = insert v (fst ` set al)"
  by (simp add: dd_add_def dom_update)

lemma keys_fold_dd_add:
  "fst ` set (fold (\<lambda>v acc. dd_add acc v c) vs acc) = fst ` set acc \<union> set vs"
  by (induction vs arbitrary: acc) (auto simp: keys_dd_add)

lemma keys_grow_fold:
  "fst ` set (fold (\<lambda>uc acc. fold (\<lambda>v acc. dd_add acc v (snd uc)) (neighbors n d macs (fst uc)) acc)
                 ucs acc)
   = fst ` set acc \<union> (\<Union>uc\<in>set ucs. set (neighbors n d macs (fst uc)))"
  by (induction ucs arbitrary: acc) (auto simp: keys_fold_dd_add)

lemma keys_grow:
  "fst ` set (grow n d macs al) = (\<Union>uc\<in>set al. set (neighbors n d macs (fst uc)))"
  by (simp add: grow_def keys_grow_fold)

lemma in_map_filter: "y \<in> set (List.map_filter f xs) \<longleftrightarrow> (\<exists>x\<in>set xs. f x = Some y)"
  by (induction xs) (auto split: option.splits)

lemma in_neighbors:
  "v \<in> set (neighbors n d macs s) \<longleftrightarrow>
     sum_list (fst s) \<noteq> n \<and> (\<exists>b\<in>set (range_py d). transition n macs s b = Some v)"
  by (simp add: neighbors_def in_map_filter)

lemma transition_entries:
  assumes "transition n macs s b = Some s'" "list_all (\<lambda>f. \<not> exceeds_half f n) (fst s)"
  shows "list_all (\<lambda>f. \<not> exceeds_half f n) (fst s')"
proof -
  obtain f d1 d2 where s: "s = (f, (d1, d2))" by (cases s) auto
  from assms(1) have s': "fst s' = take (nat b) f @ [f ! nat b + 1] @ drop (nat b + 1) f"
    and g: "\<not> exceeds_half (f ! nat b + 1) n"
    by (auto simp: transition_def s split: if_splits)
  have "set (take (nat b) f) \<subseteq> set f" "set (drop (nat b + 1) f) \<subseteq> set f"
    by (rule set_take_subset, rule set_drop_subset)
  with assms(2) g show ?thesis
    unfolding s' list_all_iff by (auto simp: s)
qed

lemma neighbors_inv:
  assumes "v \<in> set (neighbors n d macs s)" "level_inv n d i s"
  shows "level_inv n d (Suc i) v"
proof -
  from assms(1) obtain b where ne: "sum_list (fst s) \<noteq> n" and b: "b \<in> set (range_py d)"
    and tr: "transition n macs s b = Some v"
    unfolding in_neighbors by blast
  from assms(2) have l: "length (fst s) = nat d" and sm: "sum_list (fst s) = int i"
    and le: "int i \<le> n" and en: "list_all (\<lambda>f. \<not> exceeds_half f n) (fst s)"
    by (simp_all add: level_inv_def)
  from ne sm le have "int (Suc i) \<le> n" by simp
  with transition_inv[OF tr l b] transition_entries[OF tr en] sm show ?thesis
    by (simp add: level_inv_def)
qed

lemma table_inv:
  assumes "0 \<le> n"
  shows "s \<in> fst ` set (table n d macs i) \<Longrightarrow> level_inv n d i s"
proof (induction i arbitrary: s)
  case 0
  then show ?case using assms
    by (simp add: level_inv_def initial_state_def sum_list_replicate list_all_iff exceeds_half_iff)
next
  case (Suc i)
  then obtain uc where "uc \<in> set (table n d macs i)" "s \<in> set (neighbors n d macs (fst uc))"
    by (auto simp: keys_grow)
  with Suc.IH[of "fst uc"] show ?case by (auto intro: neighbors_inv)
qed

lemma grow_Nil: "grow n d macs [] = []"
  by (simp add: grow_def)

lemma table_collapse: "table n d macs i = [] \<Longrightarrow> i \<le> j \<Longrightarrow> table n d macs j = []"
proof (induction j)
  case 0
  then show ?case by simp
next
  case (Suc j)
  show ?case
  proof (cases "i = Suc j")
    case True
    with Suc.prems show ?thesis by simp
  next
    case False
    with Suc have "table n d macs j = []" by simp
    then show ?thesis by (simp add: grow_Nil)
  qed
qed

lemma run_levels_table:
  "run_levels n d macs i = Inr (L, p) \<Longrightarrow> L = rep_level (table n d macs i)"
  by (simp add: run_levels_rep)

lemma rep_level_q_Nil: "q (rep_level al) = [] \<longleftrightarrow> al = []"
  by (simp add: rep_level_def)

lemma mat_sum_entries:
  "mat_sum (matrix_power D A k) = (\<Sum>i<D. \<Sum>j<D. matrix_power D A k ! i ! j)"
proof -
  have "mat_sum (matrix_power D A k)
        = sum_list (map (\<lambda>i. sum_list (map (\<lambda>j. matrix_power D A k ! i ! j) [0..<D])) [0..<D])"
    using mat_sum_nth[of "matrix_power D A k" D] matrix_power_shape[of D A k] by blast
  then show ?thesis
    by (simp add: interv_sum_list_conv_sum_set_nat atLeast0LessThan)
qed

section \<open>The claims\<close>

text \<open>
  C1. For every valid input the state-space counter returns the same integer as the
  brute-force enumerator. This holds for every \<open>n \<ge> 1\<close> (lemma
  \<open>constrained_eq_brute\<close>, for any \<open>d\<close> and \<open>macs\<close>, the boundary of an even \<open>n\<close>
  included), but not at \<open>n = 0\<close>: there \<open>brute\<close> returns \<open>1\<close> while
  \<open>count_keys_macs_and_en1303\<close> raises \<open>UnboundLocalError\<close> at \<open>pbar2.close()\<close>.
  Evaluated at \<open>n = 0\<close>, \<open>d = 1\<close>, \<open>macs = 0\<close>.
\<close>

theorem constrained_vs_brute_n0:
  "brute 0 1 0 = Inr 1 \<and> count_keys_macs_and_en1303 0 1 0 = Inl UnboundLocalError"
  by (simp add: brute_def good_def range_py_def count_keys_macs_and_en1303_def)

text \<open>
  C2. For \<open>n \<ge> 1\<close>, \<open>d \<ge> 1\<close>, \<open>macs \<ge> 0\<close> and depths \<open>i\<close>, \<open>j\<close> in \<open>range(d)\<close>:
  entry \<open>(i, j)\<close> of the adjacency matrix is \<open>1\<close> if \<open>|i - j| \<le> macs\<close> and \<open>0\<close>
  otherwise; entry \<open>(i, j)\<close> of its power \<open>n - 1\<close> is the number of sequences of length
  \<open>n\<close> over \<open>range(d)\<close> that start with \<open>i\<close>, end with \<open>j\<close> and pass the adjacency
  check; and the integer \<open>count_keys\<close> returns is the sum of the entries of that power
  over all \<open>i\<close> and \<open>j\<close> below \<open>d\<close>, which is the number of all sequences of length
  \<open>n\<close> over \<open>range(d)\<close> that pass the adjacency check. All numbers are unbounded
  integers.
\<close>

theorem transfer_matrix_counts:
  assumes "1 \<le> n" "1 \<le> d" "0 \<le> macs"
  shows "(\<forall>i\<in>set (range_py d). \<forall>j\<in>set (range_py d).
            adjacency d macs ! nat i ! nat j = (if \<bar>i - j\<bar> \<le> macs then 1 else 0) \<and>
            matrix_power (nat d) (adjacency d macs) (nat (n - 1)) ! nat i ! nat j
              = int (length (filter (\<lambda>t. hd t = i \<and> last t = j \<and> macs_valid n macs t)
                               (product_repeat (range_py d) (nat n)))))
         \<and> count_keys n d macs
              = Inr (mat_sum (matrix_power (nat d) (adjacency d macs) (nat (n - 1))))
         \<and> count_keys n d macs
              = Inr (\<Sum>i<nat d. \<Sum>j<nat d.
                       matrix_power (nat d) (adjacency d macs) (nat (n - 1)) ! i ! j)
         \<and> count_keys n d macs
              = Inr (int (length (filter (macs_valid n macs)
                                    (product_repeat (range_py d) (nat n)))))"
proof (intro conjI ballI)
  fix i j assume i: "i \<in> set (range_py d)" and j: "j \<in> set (range_py d)"
  from range_py_nat[OF i] range_py_nat[OF j]
  show "adjacency d macs ! nat i ! nat j = (if \<bar>i - j\<bar> \<le> macs then 1 else 0)"
    by (simp add: nth_adjacency)
  show "matrix_power (nat d) (adjacency d macs) (nat (n - 1)) ! nat i ! nat j
        = int (length (filter (\<lambda>t. hd t = i \<and> last t = j \<and> macs_valid n macs t)
                         (product_repeat (range_py d) (nat n))))"
    by (rule paths_entry_product[OF assms(1) i j])
next
  show c: "count_keys n d macs
        = Inr (mat_sum (matrix_power (nat d) (adjacency d macs) (nat (n - 1))))"
    using assms by (simp add: count_keys_def)
  show "count_keys n d macs
        = Inr (\<Sum>i<nat d. \<Sum>j<nat d.
                 matrix_power (nat d) (adjacency d macs) (nat (n - 1)) ! i ! j)"
    unfolding c mat_sum_entries ..
  show "count_keys n d macs
        = Inr (int (length (filter (macs_valid n macs)
                              (product_repeat (range_py d) (nat n)))))"
    using assms by (intro count_keys_product) simp_all
qed

theorem transfer_matrix_counts_witness:
  "(1::int) \<le> 3 \<and> (1::int) \<le> 2 \<and> (0::int) \<le> 1 \<and>
   (0::int) \<in> set (range_py 2) \<and> (1::int) \<in> set (range_py 2) \<and>
   matrix_power (nat 2) (adjacency 2 1) (nat (3 - 1)) ! nat 0 ! nat 1
     = int (length (filter (\<lambda>t. hd t = 0 \<and> last t = 1 \<and> macs_valid 3 1 t)
                      (product_repeat (range_py 2) (nat 3)))) \<and>
   count_keys 3 2 1 = Inr (mat_sum (matrix_power (nat 2) (adjacency 2 1) (nat (3 - 1)))) \<and>
   count_keys 3 2 1
     = Inr (\<Sum>i<nat 2. \<Sum>j<nat 2. matrix_power (nat 2) (adjacency 2 1) (nat (3 - 1)) ! i ! j) \<and>
   count_keys 3 2 1
     = Inr (int (length (filter (macs_valid 3 1) (product_repeat (range_py 2) (nat 3))))) \<and>
   count_keys 3 2 1 = Inr 8"
proof -
  have m: "(0::int) \<in> set (range_py 2)" "(1::int) \<in> set (range_py 2)"
    by (simp_all add: in_range_py)
  have h: "(1::int) \<le> 3" "(1::int) \<le> 2" "(0::int) \<le> 1" by simp_all
  note t = transfer_matrix_counts[OF h]
  from t m have e: "matrix_power (nat 2) (adjacency 2 1) (nat (3 - 1)) ! nat 0 ! nat 1
     = int (length (filter (\<lambda>t. hd t = 0 \<and> last t = 1 \<and> macs_valid 3 1 t)
                      (product_repeat (range_py 2) (nat 3))))" by blast
  have v: "int (length (filter (macs_valid 3 1) (product_repeat (range_py 2) (nat 3)))) = 8"
    by code_simp
  from t have p: "count_keys 3 2 1
     = Inr (int (length (filter (macs_valid 3 1) (product_repeat (range_py 2) (nat 3)))))"
    by blast
  then have "count_keys 3 2 1 = Inr 8" unfolding v .
  with t m h e show ?thesis by blast
qed




text \<open>
  C4. The adjacency-only count is an upper bound of the constrained count. For \<open>n \<ge> 1\<close>
  this holds (lemma \<open>adjacency_upper_bound\<close>); at \<open>n = 0\<close> \<open>count_keys\<close> returns \<open>1\<close>
  but \<open>count_keys_macs_and_en1303\<close> raises \<open>UnboundLocalError\<close>, so there is no count
  to compare. Evaluated at \<open>n = 0\<close>, \<open>d = 2\<close>, \<open>macs = 1\<close>.
\<close>

theorem upper_bound_n0:
  "count_keys 0 2 1 = Inr 1 \<and> count_keys_macs_and_en1303 0 2 1 = Inl UnboundLocalError"
  by (simp add: count_keys_def count_keys_macs_and_en1303_def)

text \<open>
  C5. Both counts are non-decreasing in \<open>macs\<close>. \<open>count_keys\<close> is, for every \<open>n \<ge> 0\<close>
  (lemma \<open>count_keys_mono\<close>), and \<open>count_keys_macs_and_en1303\<close> is for every
  \<open>n \<ge> 1\<close> (lemma \<open>constrained_mono\<close>); at \<open>n = 0\<close> the latter raises
  \<open>UnboundLocalError\<close> for every \<open>macs\<close> and returns no count. Evaluated at \<open>n = 0\<close>,
  \<open>d = 1\<close>, \<open>macs = 0\<close> and \<open>macs = 1\<close>.
\<close>

theorem monotone_n0:
  "count_keys_macs_and_en1303 0 1 0 = Inl UnboundLocalError \<and>
   count_keys_macs_and_en1303 0 1 1 = Inl UnboundLocalError"
  by (simp add: count_keys_macs_and_en1303_def)

text \<open>
  C6. The base case \<open>n = 0\<close>: \<open>count_keys\<close> returns \<open>1\<close>, as the claim says, but
  \<open>count_keys_macs_and_en1303\<close> does not return \<open>1\<close>: the outer loop never runs, the
  local \<open>pbar2\<close> is never bound, and \<open>pbar2.close()\<close> raises \<open>UnboundLocalError\<close>.
  Evaluated here at \<open>n = 0\<close>, \<open>d = 1\<close>, \<open>macs = 0\<close>.
\<close>

theorem base_case_n0:
  "count_keys 0 1 0 = Inr 1 \<and> count_keys_macs_and_en1303 0 1 0 = Inl UnboundLocalError"
  by (simp add: count_keys_def count_keys_macs_and_en1303_def)

text \<open>
  C7. With a single depth (\<open>d = 1\<close>) and \<open>macs \<ge> 0\<close>, for every \<open>n \<ge> 1\<close>:
  \<open>count_keys_macs_and_en1303\<close> returns \<open>0\<close> (the only sequence uses depth \<open>0\<close> all
  \<open>n\<close> times, more than \<open>n / 2\<close>), and \<open>count_keys\<close> returns \<open>1\<close>.
\<close>

theorem single_depth:
  assumes "1 \<le> n" "0 \<le> macs"
  shows "count_keys_macs_and_en1303 n 1 macs = Inr 0 \<and> count_keys n 1 macs = Inr 1"
  using constrained_single_depth[OF assms(1)] count_keys_single_depth[OF assms] by simp

theorem single_depth_witness:
  "(1::int) \<le> 2 \<and> (0::int) \<le> 0 \<and>
   count_keys_macs_and_en1303 2 1 0 = Inr 0 \<and> count_keys 2 1 0 = Inr 1"
  using single_depth[of 2 0] by simp

text \<open>
  C8. Invariant of the search, for \<open>n \<ge> 0\<close>: every state \<open>(freqs, (d1, d2))\<close> in the
  tables after \<open>i\<close> rounds has \<open>sum(freqs) \<le> i \<le> n\<close> and every entry of \<open>freqs\<close> at
  most \<open>n / 2\<close> under real division (hence at most \<open>ceil(n / 2)\<close>, which is
  \<open>(n + 1) div 2\<close>); and every state that \<open>neighbors\<close> yields from it satisfies the same
  for \<open>i + 1\<close>.
\<close>

theorem frequency_invariant:
  assumes "0 \<le> n" "run_levels n d macs i = Inr (L, p)"
    and "(u_id, (freqs, d1, d2)) \<in> set (id_to_state L)"
  shows "sum_list freqs \<le> int i \<and> int i \<le> n \<and>
         (\<forall>f\<in>set freqs. \<not> exceeds_half f n \<and> f \<le> (n + 1) div 2) \<and>
         (\<forall>v\<in>set (neighbors n d macs (freqs, d1, d2)).
            sum_list (fst v) \<le> int (Suc i) \<and> int (Suc i) \<le> n \<and>
            (\<forall>f\<in>set (fst v). \<not> exceeds_half f n \<and> f \<le> (n + 1) div 2))"
proof -
  have half: "\<And>f. \<not> exceeds_half f n \<Longrightarrow> f \<le> (n + 1) div 2"
    unfolding exceeds_half_iff by linarith
  from assms(2) have L: "L = rep_level (table n d macs i)" by (rule run_levels_table)
  from assms(3) have "(freqs, d1, d2) \<in> set (map fst (table n d macs i))"
    unfolding L rep_level_def by (auto dest: set_zip_rightD)
  then have "(freqs, d1, d2) \<in> fst ` set (table n d macs i)" by simp
  from table_inv[OF assms(1) this] have inv: "level_inv n d i (freqs, d1, d2)" .
  have a: "sum_list freqs \<le> int i \<and> int i \<le> n \<and>
           (\<forall>f\<in>set freqs. \<not> exceeds_half f n \<and> f \<le> (n + 1) div 2)"
    using inv half by (auto simp: level_inv_def list_all_iff)
  have b: "\<forall>v\<in>set (neighbors n d macs (freqs, d1, d2)).
            sum_list (fst v) \<le> int (Suc i) \<and> int (Suc i) \<le> n \<and>
            (\<forall>f\<in>set (fst v). \<not> exceeds_half f n \<and> f \<le> (n + 1) div 2)"
  proof
    fix v assume "v \<in> set (neighbors n d macs (freqs, d1, d2))"
    from neighbors_inv[OF this inv] have "level_inv n d (Suc i) v" .
    then show "sum_list (fst v) \<le> int (Suc i) \<and> int (Suc i) \<le> n \<and>
            (\<forall>f\<in>set (fst v). \<not> exceeds_half f n \<and> f \<le> (n + 1) div 2)"
      using half by (auto simp: level_inv_def list_all_iff)
  qed
  from a b show ?thesis by blast
qed

theorem frequency_invariant_witness:
  "(0::int) \<le> 2 \<and>
   run_levels 2 2 1 1
     = Inr (\<lparr>q = [0, 1],
              id_to_state = [(0, [1, 0], None, Some 0), (1, [0, 1], None, Some 1)],
              paths = [(0, 1), (1, 1)]\<rparr>, Some 1) \<and>
   (0, ([1, 0], None, Some 0))
     \<in> set (id_to_state \<lparr>q = [0, 1],
              id_to_state = [(0, [1, 0], None, Some 0), (1, [0, 1], None, Some 1)],
              paths = [(0, 1), (1, 1)]\<rparr>) \<and>
   sum_list [1, 0] \<le> int 1 \<and> int 1 \<le> 2 \<and>
   \<not> exceeds_half 1 2 \<and> (1::int) \<le> (2 + 1) div 2 \<and>
   ([1, 1], Some 0, Some 1) \<in> set (neighbors 2 2 1 ([1, 0], None, Some 0)) \<and>
   sum_list [1, 1] \<le> int (Suc 1) \<and> int (Suc 1) \<le> 2"
proof -
  have h0: "(0::int) \<le> 2" by simp
  have h1: "run_levels 2 2 1 1
     = Inr (\<lparr>q = [0, 1],
              id_to_state = [(0, [1, 0], None, Some 0), (1, [0, 1], None, Some 1)],
              paths = [(0, 1), (1, 1)]\<rparr>, Some 1)"
    by code_simp
  have h2: "(0, ([1, 0], None, Some 0))
     \<in> set (id_to_state \<lparr>q = [0, 1],
              id_to_state = [(0, [1, 0], None, Some 0), (1, [0, 1], None, Some 1)],
              paths = [(0, 1), (1, 1)]\<rparr>)"
    by simp
  have h3: "([1, 1], Some 0, Some 1) \<in> set (neighbors 2 2 1 ([1, 0], None, Some 0))"
    by code_simp
  note t = frequency_invariant[OF h0 h1 h2]
  from t have a: "sum_list [1, 0] \<le> int 1 \<and> int 1 \<le> 2" by blast
  from t have b: "\<not> exceeds_half 1 2 \<and> (1::int) \<le> (2 + 1) div 2" by simp
  note t2 = t[THEN conjunct2, THEN conjunct2, THEN conjunct2]
  from bspec[OF t2 h3] have c: "sum_list [1, 1] \<le> int (Suc 1) \<and> int (Suc 1) \<le> 2"
    by simp
  from a b c h0 h1 h2 h3 show ?thesis by simp
qed

text \<open>
  C9. The search always ends: every round completes (no table lookup fails), the result
  is read off the tables after exactly \<open>n\<close> rounds, and for \<open>n \<ge> 1\<close> it is an integer.
  If after some round no state is left, all later rounds leave none either, and the
  function returns \<open>0\<close>. (With \<open>n = 0\<close> no round runs and the call ends at
  \<open>pbar2.close()\<close> with \<open>UnboundLocalError\<close>, see C6; this is the case \<open>None\<close> below.)
\<close>

theorem levels_terminate:
  "(\<forall>i. \<exists>L p. run_levels n d macs i = Inr (L, p)) \<and>
   (\<exists>L p. run_levels n d macs (nat n) = Inr (L, p) \<and>
           count_keys_macs_and_en1303 n d macs
             = (case p of None \<Rightarrow> Inl UnboundLocalError
                | Some x \<Rightarrow> Inr (sum_list (map snd (paths L))))) \<and>
   (1 \<le> n \<longrightarrow> (\<exists>c. count_keys_macs_and_en1303 n d macs = Inr c)) \<and>
   (\<forall>i j L p L' p'.
      run_levels n d macs i = Inr (L, p) \<and> q L = [] \<and> i \<le> j \<and>
      run_levels n d macs j = Inr (L', p') \<longrightarrow> q L' = [] \<and> paths L' = []) \<and>
   (\<forall>i L p.
      i \<le> nat n \<and> run_levels n d macs i = Inr (L, p) \<and> q L = [] \<longrightarrow>
      count_keys_macs_and_en1303 n d macs = Inr 0)"
proof (intro conjI allI impI)
  fix i
  show "\<exists>L p. run_levels n d macs i = Inr (L, p)" by (simp add: run_levels_rep)
next
  show "\<exists>L p. run_levels n d macs (nat n) = Inr (L, p) \<and>
           count_keys_macs_and_en1303 n d macs
             = (case p of None \<Rightarrow> Inl UnboundLocalError
                | Some x \<Rightarrow> Inr (sum_list (map snd (paths L))))"
    by (simp add: count_keys_macs_and_en1303_def run_levels_rep)
next
  assume "1 \<le> n"
  then show "\<exists>c. count_keys_macs_and_en1303 n d macs = Inr c"
    by (simp add: constrained_table)
next
  fix i j L p L' p'
  assume a: "run_levels n d macs i = Inr (L, p) \<and> q L = [] \<and> i \<le> j \<and>
      run_levels n d macs j = Inr (L', p')"
  then have L: "L = rep_level (table n d macs i)" and L': "L' = rep_level (table n d macs j)"
    by (simp_all add: run_levels_rep)
  from a L have "table n d macs i = []" by (simp add: rep_level_q_Nil)
  with a have "table n d macs j = []" by (simp add: table_collapse)
  then show "q L' = []" "paths L' = []" by (simp_all add: L' rep_level_def)
next
  fix i L p
  assume a: "i \<le> nat n \<and> run_levels n d macs i = Inr (L, p) \<and> q L = []"
  then have L: "L = rep_level (table n d macs i)" by (simp add: run_levels_rep)
  with a have e: "table n d macs i = []" by (simp add: rep_level_q_Nil)
  with a have f: "table n d macs (nat n) = []" by (simp add: table_collapse)
  have "i \<noteq> 0" using e by (cases i) simp_all
  with a have "1 \<le> n" by linarith
  with f show "count_keys_macs_and_en1303 n d macs = Inr 0" by (simp add: constrained_table)
qed

theorem levels_terminate_witness:
  "run_levels 1 1 0 1 = Inr (\<lparr>q = [], id_to_state = [], paths = []\<rparr>, Some 1) \<and>
   q \<lparr>q = [], id_to_state = [], paths = []\<rparr> = [] \<and> (1::nat) \<le> nat 1 \<and> (1::int) \<le> 1 \<and>
   (1::nat) \<le> 2 \<and>
   run_levels 1 1 0 2 = Inr (\<lparr>q = [], id_to_state = [], paths = []\<rparr>, Some 0) \<and>
   count_keys_macs_and_en1303 1 1 0 = Inr 0"
proof -
  have h1: "run_levels 1 1 0 1 = Inr (\<lparr>q = [], id_to_state = [], paths = []\<rparr>, Some 1)"
    by code_simp
  have h2: "run_levels 1 1 0 2 = Inr (\<lparr>q = [], id_to_state = [], paths = []\<rparr>, Some 0)"
    by code_simp
  have h3: "q \<lparr>q = [], id_to_state = ([] :: (nat \<times> state) list), paths = []\<rparr> = []" by simp
  have h4: "(1::nat) \<le> nat 1" by simp
  from levels_terminate[of 1 1 0] h1 h3 h4
  have "count_keys_macs_and_en1303 1 1 0 = Inr 0" by blast
  with h1 h2 h3 h4 show ?thesis by simp
qed

text \<open>
  C10. For every \<open>d \<ge> 1\<close> and \<open>macs \<ge> 0\<close>, \<open>brute(0, d, macs)\<close> returns \<open>1\<close>: the
  product of zero copies of \<open>range(d)\<close> holds exactly the empty tuple, and \<open>good\<close>
  accepts it since none of its three loops runs.
\<close>

theorem brute_n0: "1 \<le> d \<Longrightarrow> 0 \<le> macs \<Longrightarrow> brute 0 d macs = Inr 1"
  by (simp add: brute_def good_def range_py_def)

theorem brute_n0_witness: "(1::int) \<le> 3 \<and> (0::int) \<le> 2 \<and> brute 0 3 2 = Inr 1"
  using brute_n0 [of 3 2] by simp

end
